theory Spec2Isabelle
  imports Main "HOL-Library.Word"
begin

section \<open>Machine types and outputs\<close>

text \<open>
  The sketch \<open>telescope_dec/src/main.cpp\<close> is written for an Arduino Nano v3 driving a
  TMC2209.  \<open>uint32_t\<close> (the value of \<open>micros()\<close>) and \<open>long\<close> are 32 bits wide on the
  Arduino cores; \<open>long\<close> is read as two's complement with \<open>sint\<close>.  The width of C's
  \<open>int\<close> is left to the platform (16 bits on the ATmega328P of the Nano, 32 bits on the
  ARM cores), so the model is parametric in it: an \<open>int\<close> is a \<open>'w word\<close>, read with
  \<open>sint\<close>.  Negating the most negative value wraps, as the compiled code does.
\<close>

type_synonym u32 = "32 word"
type_synonym long = "32 word"

datatype pin = STEP_PIN | DIR_PIN | EN_PIN

text \<open>What \<open>Serial.print\<close> is given: a flash string, or a number printed in decimal
  (a \<open>bool\<close> argument is promoted to \<open>int\<close> and printed as 0 or 1).\<close>

datatype item = Str string | Num int

text \<open>The calls on the \<open>TMC2209Stepper driver\<close> object, an external library.\<close>

datatype driver_call =
    drv_begin
  | pdn_disable bool
  | I_scale_analog bool
  | mstep_reg_select bool
  | toff nat
  | blank_time nat
  | rms_current "16 word"
  | microsteps "16 word"
  | en_spreadCycle bool
  | pwm_autoscale bool
  | GSTAT nat
  | SGTHRS "8 word"

text \<open>Everything the program does to the outside world, in program order.
  \<open>dumpInfo\<close> only reads driver registers and prints them; it is one event.\<close>

datatype effect =
    digitalWrite pin bool
  | Serial_print item
  | Serial_println item
  | driver driver_call
  | dumpInfo

definition EN_ACTIVE_LOW :: bool where
  "EN_ACTIVE_LOW = True"

section \<open>The step generator\<close>

record 'i Runner =
  enabled :: bool
  continuous :: bool
  dir :: bool
  remaining :: long
  stepIntervalUs :: u32
  pulseWidthUs :: u32
  nextStepUs :: u32
  stepHigh :: bool
  stepHighUntilUs :: u32
  lastSps :: 'i

text \<open>The default member initialisers of \<open>struct Runner\<close>.\<close>

definition Runner_init :: "'w::len word Runner" where
  "Runner_init = \<lparr> enabled = False, continuous = False, dir = False, remaining = 0,
     stepIntervalUs = 2000, pulseWidthUs = 3, nextStepUs = 0, stepHigh = False,
     stepHighUntilUs = 0, lastSps = 500 \<rparr>"

definition setEnable :: "bool \<Rightarrow> 'i Runner \<Rightarrow> 'i Runner \<times> effect list" where
  "setEnable on r =
     (r\<lparr>enabled := on\<rparr>, [digitalWrite EN_PIN (if EN_ACTIVE_LOW then \<not> on else on)])"

definition setDir :: "bool \<Rightarrow> 'i Runner \<Rightarrow> 'i Runner \<times> effect list" where
  "setDir d r = (r\<lparr>dir := d\<rparr>, [digitalWrite DIR_PIN d])"

definition setSpeedSps :: "'w::len word \<Rightarrow> 'w word Runner \<Rightarrow> 'w word Runner" where
  "setSpeedSps sps_abs r =
     (let s1 = (if sint sps_abs < 1 then 1 else sps_abs);
          s2 = (if sint s1 > 40000 then 40000 else s1);
          r1 = r\<lparr>lastSps := s2\<rparr>;
          r2 = r1\<lparr>stepIntervalUs := (1000000 :: u32) div (scast (s2 :: 'w word) :: u32)\<rparr>
      in if stepIntervalUs r2 < pulseWidthUs r2 + 4
         then r2\<lparr>stepIntervalUs := pulseWidthUs r2 + 4\<rparr> else r2)"

text \<open>\<open>serviceStepper\<close>; the argument \<open>now\<close> is the value \<open>micros()\<close> returns.  (The
  source's \<open>if (!run.continuous && run.remaining == 0)\<close> after the release has an empty body.)\<close>

definition serviceStepper :: "u32 \<Rightarrow> 'i Runner \<Rightarrow> 'i Runner \<times> effect list" where
  "serviceStepper now r =
     (if stepHigh r then
        (if 0 \<le> sint (now - stepHighUntilUs r)
         then (r\<lparr>stepHigh := False\<rparr>, [digitalWrite STEP_PIN False])
         else (r, []))
      else
        (let shouldStep = (enabled r \<and> (continuous r \<or> 0 < sint (remaining r))) in
         if \<not> shouldStep then (r, [])
         else if 0 \<le> sint (now - nextStepUs r) then
           (let r1 = r\<lparr>stepHigh := True,
                        stepHighUntilUs := now + pulseWidthUs r,
                        nextStepUs := now + stepIntervalUs r\<rparr>
            in (if \<not> continuous r1 \<and> 0 < sint (remaining r1)
                then r1\<lparr>remaining := remaining r1 - 1\<rparr> else r1,
                [digitalWrite STEP_PIN True]))
         else (r, [])))"

section \<open>The C library functions the parser calls\<close>

text \<open>
  \<open>strtok\<close>, \<open>atoi\<close> and \<open>atol\<close> are the C library's.  \<open>strtok s\<close> skips leading
  delimiters and returns the next token together with the text after the delimiter that
  ended it (where the next call with \<open>nullptr\<close> resumes), or \<open>None\<close> for C's \<open>NULL\<close>.
  \<open>atoi\<close> skips white space, reads an optional sign and the decimal digits that follow,
  and yields 0 when there are none.  For a value out of range of the result, which the C
  standard leaves undefined, the model wraps to the width of the result, as avr-libc does;
  no theorem below depends on it.
\<close>

definition is_delim :: "char \<Rightarrow> bool" where
  "is_delim c \<longleftrightarrow> c = CHR '' '' \<or> c = CHR 0x09"

definition strtok :: "string \<Rightarrow> (string \<times> string) option" where
  "strtok s =
     (let s1 = dropWhile is_delim s in
      if s1 = [] then None
      else Some (takeWhile (\<lambda>c. \<not> is_delim c) s1,
                 drop 1 (dropWhile (\<lambda>c. \<not> is_delim c) s1)))"

definition isspace :: "char \<Rightarrow> bool" where
  "isspace c \<longleftrightarrow> c = CHR '' '' \<or> (9 \<le> (of_char c :: nat) \<and> (of_char c :: nat) \<le> 13)"

definition isdigit :: "char \<Rightarrow> bool" where
  "isdigit c \<longleftrightarrow> 48 \<le> (of_char c :: nat) \<and> (of_char c :: nat) \<le> 57"

fun digits :: "int \<Rightarrow> string \<Rightarrow> int" where
  "digits acc [] = acc"
| "digits acc (c # cs) =
     (if isdigit c then digits (acc * 10 + (of_char c - 48)) cs else acc)"

definition strtol10 :: "string \<Rightarrow> int" where
  "strtol10 s =
     (case dropWhile isspace s of
        [] \<Rightarrow> 0
      | c # cs \<Rightarrow>
          if c = CHR ''-'' then - digits 0 cs
          else if c = CHR ''+'' then digits 0 cs
          else digits 0 (c # cs))"

definition atoi :: "string \<Rightarrow> 'w::len word" where
  "atoi s = word_of_int (strtol10 s)"

definition atol :: "string \<Rightarrow> long" where
  "atol s = word_of_int (strtol10 s)"

text \<open>Arduino's macro \<open>constrain(amt, low, high)\<close>.\<close>

definition constrain :: "int \<Rightarrow> int \<Rightarrow> int \<Rightarrow> int" where
  "constrain amt low high = (if amt < low then low else if amt > high then high else amt)"

section \<open>The line parser\<close>

definition help_text :: string where
  "help_text =
     ''help | info | enable 0|1 | dir 0|1 | run <sps> | move <steps> <sps> | stop'' @ [CHR 0x0A] @
     ''current <mA> | microsteps <n> | stealth 0|1 | sgthrs <0..255>'' @ [CHR 0x0A]"

definition printHelp :: "effect list" where
  "printHelp = [Serial_println (Str help_text)]"

text \<open>A call \<open>strtok(nullptr, " \t")\<close>: the token, if any, and where the next call resumes.\<close>

definition next_tok :: "string \<Rightarrow> string option \<times> string" where
  "next_tok rest = (case strtok rest of None \<Rightarrow> (None, []) | Some (t, rest') \<Rightarrow> (Some t, rest'))"

definition of_bool_item :: "bool \<Rightarrow> item" where
  "of_bool_item b = Num (if b then 1 else 0)"

definition handleLine :: "string \<Rightarrow> 'w::len word Runner \<Rightarrow> 'w word Runner \<times> effect list" where
  "handleLine s0 r =
    (let s = dropWhile is_delim s0 in
     if s = [] then (r, [])
     else case strtok s of
       None \<Rightarrow> (r, [])
     | Some (cmd, rest) \<Rightarrow>
       if cmd = ''help'' then (r, printHelp)
       else if cmd = ''info'' \<or> cmd = ''dump'' then (r, [dumpInfo])
       else if cmd = ''enable'' then
         (let (a, rest1) = next_tok rest;
              (r1, o1) = setEnable (a \<noteq> None \<and> (atoi (the a) :: 'w word) \<noteq> 0) r
          in (r1, o1 @ [Serial_print (Str ''enable=''), Serial_println (of_bool_item (enabled r1))]))
       else if cmd = ''dir'' then
         (let (a, rest1) = next_tok rest;
              (r1, o1) = setDir (a \<noteq> None \<and> (atoi (the a) :: 'w word) \<noteq> 0) r
          in (r1, o1 @ [Serial_print (Str ''dir=''), Serial_println (of_bool_item (dir r1))]))
       else if cmd = ''stop'' then
         (r\<lparr>continuous := False, remaining := 0\<rparr>, [Serial_println (Str ''stopped'')])
       else if cmd = ''run'' then
         (let (a, rest1) = next_tok rest;
              sps = (case a of Some t \<Rightarrow> (atoi t :: 'w word) | None \<Rightarrow> lastSps r);
              d = (sint sps < 0);
              sps = (if sint sps < 0 then - sps else sps);
              (r1, o1) = setDir d r;
              r2 = setSpeedSps sps r1;
              r3 = r2\<lparr>continuous := True, remaining := 0\<rparr>;
              (r4, o4) = setEnable True r3
          in (r4, o1 @ o4 @
                [Serial_print (Str ''run sps=''), Serial_print (Num (sint sps)),
                 Serial_print (Str '' dir=''), Serial_println (of_bool_item d)]))
       else if cmd = ''move'' then
         (let (a, rest1) = next_tok rest;
              (b, rest2) = next_tok rest1
          in case a of
               None \<Rightarrow> (r, [Serial_println (Str ''move needs <steps>'')])
             | Some ta \<Rightarrow>
               (let steps = atol ta;
                    sps = (case b of Some t \<Rightarrow> (atoi t :: 'w word) | None \<Rightarrow> lastSps r);
                    d = (sint steps < 0);
                    steps = (if sint steps < 0 then - steps else steps);
                    sps = (if sint sps < 0 then - sps else sps);
                    (r1, o1) = setDir d r;
                    r2 = setSpeedSps sps r1;
                    r3 = r2\<lparr>continuous := False, remaining := steps\<rparr>;
                    (r4, o4) = setEnable True r3
                in (r4, o1 @ o4 @
                      [Serial_print (Str ''move steps=''), Serial_print (Num (sint steps)),
                       Serial_print (Str '' sps=''), Serial_print (Num (sint sps)),
                       Serial_print (Str '' dir=''), Serial_println (of_bool_item d)])))
       else if cmd = ''current'' then
         (let (a, rest1) = next_tok rest
          in case a of
               None \<Rightarrow> (r, [Serial_println (Str ''current needs <mA>'')])
             | Some t \<Rightarrow>
               (let mA = (word_of_int (constrain (sint (atoi t :: 'w word)) 50 2000) :: 16 word)
                in (r, [driver (rms_current mA),
                        Serial_print (Str ''rms_current(mA)=''), Serial_println (Num (uint mA))])))
       else if cmd = ''microsteps'' then
         (let (a, rest1) = next_tok rest
          in case a of
               None \<Rightarrow> (r, [Serial_println (Str ''microsteps needs <n>'')])
             | Some t \<Rightarrow>
               (let ms = (scast (atoi t :: 'w word) :: 16 word)
                in (r, [driver (microsteps ms),
                        Serial_print (Str ''microsteps=''), Serial_println (Num (uint ms))])))
       else if cmd = ''stealth'' then
         (let (a, rest1) = next_tok rest
          in case a of
               None \<Rightarrow> (r, [Serial_println (Str ''stealth needs 0|1'')])
             | Some t \<Rightarrow>
               (let stealth = ((atoi t :: 'w word) \<noteq> 0)
                in (r, [driver (en_spreadCycle (\<not> stealth)), driver (pwm_autoscale True),
                        Serial_print (Str ''stealth=''), Serial_println (of_bool_item stealth)])))
       else if cmd = ''sgthrs'' then
         (let (a, rest1) = next_tok rest
          in case a of
               None \<Rightarrow> (r, [Serial_println (Str ''sgthrs needs 0..255'')])
             | Some t \<Rightarrow>
               (let v = (word_of_int (constrain (sint (atoi t :: 'w word)) 0 255) :: 8 word)
                in (r, [driver (SGTHRS v),
                        Serial_print (Str ''SGTHRS=''), Serial_println (Num (uint v))])))
       else (r, [Serial_print (Str ''unknown: ''), Serial_println (Str cmd)]))"

section \<open>The serial reader and the main loop\<close>

text \<open>
  The statics of the sketch: the global \<open>run\<close>, the line buffer (\<open>lineBuf\<close> holds the
  \<open>lineLen\<close> characters stored so far, so \<open>lineLen\<close> is its length) and \<open>loop\<close>'s
  \<open>lastRemaining\<close>.
\<close>

record 'i sketch =
  run :: "'i Runner"
  lineBuf :: string
  lastRemaining :: long

text \<open>The C string in the buffer once \<open>lineBuf[lineLen] = 0\<close> is stored: it ends at the
  first NUL.\<close>

definition c_str :: "string \<Rightarrow> string" where
  "c_str buf = takeWhile (\<lambda>c. c \<noteq> CHR 0x00) buf"

text \<open>\<open>serviceSerial\<close>; the first argument is the bytes \<open>Serial.read()\<close> returns while
  \<open>Serial.available()\<close> holds.\<close>

fun serviceSerial :: "string \<Rightarrow> 'w::len word sketch \<Rightarrow> 'w word sketch \<times> effect list" where
  "serviceSerial [] st = (st, [])"
| "serviceSerial (c # cs) st =
     (if c = CHR 0x0D then serviceSerial cs st
      else if c = CHR 0x0A then
        (let (r1, o1) = handleLine (c_str (lineBuf st)) (run st);
             (st2, o2) = serviceSerial cs (st\<lparr>run := r1, lineBuf := []\<rparr>)
         in (st2, o1 @ o2))
      else serviceSerial cs
             (if length (lineBuf st) < 95 then st\<lparr>lineBuf := lineBuf st @ [c]\<rparr> else st))"

text \<open>The sketch's \<open>setup()\<close>: the statics after it, and its pin writes, driver calls and
  prints in order (\<open>pinMode\<close> and the two \<open>begin\<close> calls of the serial ports change none of
  this and are left out).\<close>

definition setup_sketch :: "'w::len word sketch \<times> effect list" where
  "setup_sketch =
     (let (r1, o1) = setDir False Runner_init;
          (r2, o2) = setEnable False r1
      in (\<lparr> run = r2, lineBuf = [], lastRemaining = - 1 \<rparr>,
          [digitalWrite STEP_PIN False] @ o1 @ o2 @
          [driver drv_begin, driver (pdn_disable True), driver (I_scale_analog False),
           driver (mstep_reg_select True), driver (toff 4), driver (blank_time 24),
           driver (rms_current 600), driver (microsteps 16), driver (en_spreadCycle False),
           driver (pwm_autoscale True), driver (GSTAT 7),
           Serial_println (Str (''Ready. Type '' @ [CHR 0x27] @ ''help'' @ [CHR 0x27] @ ''.'')),
           dumpInfo]))"

text \<open>One iteration of \<open>loop\<close>, given the serial bytes it reads and the clock it samples.\<close>

definition loop :: "string \<Rightarrow> u32 \<Rightarrow> 'w::len word sketch \<Rightarrow> 'w word sketch \<times> effect list" where
  "loop input now st =
     (let (st1, o1) = serviceSerial input st;
          (r2, o2) = serviceStepper now (run st1);
          o3 = (if \<not> continuous r2 \<and> lastRemaining st1 \<noteq> 0 \<and> remaining r2 = 0
                then [Serial_println (Str ''move done'')] else [])
      in (st1\<lparr>run := r2, lastRemaining := remaining r2\<rparr>, o1 @ o2 @ o3))"

section \<open>Executions\<close>

text \<open>Free-running scheduler ticks at the given clock samples, with no command between.\<close>

fun run_ticks :: "u32 list \<Rightarrow> 'i Runner \<Rightarrow> 'i Runner \<times> effect list" where
  "run_ticks [] r = (r, [])"
| "run_ticks (t # ts) r =
     (let (r1, o1) = serviceStepper t r; (r2, o2) = run_ticks ts r1 in (r2, o1 @ o2))"

text \<open>Iterations of \<open>loop\<close>, each with the serial bytes it reads and its clock sample.\<close>

fun run_loop :: "(string \<times> u32) list \<Rightarrow> 'w::len word sketch \<Rightarrow> 'w word sketch \<times> effect list" where
  "run_loop [] st = (st, [])"
| "run_loop ((input, now) # is) st =
     (let (st1, o1) = loop input now st; (st2, o2) = run_loop is st1 in (st2, o1 @ o2))"

text \<open>The levels written to the step pin, in order, and the number of rising edges.\<close>

fun step_writes :: "effect list \<Rightarrow> bool list" where
  "step_writes [] = []"
| "step_writes (digitalWrite STEP_PIN v # os) = v # step_writes os"
| "step_writes (_ # os) = step_writes os"

definition rising_edges :: "effect list \<Rightarrow> nat" where
  "rising_edges os = length (filter (\<lambda>v. v) (step_writes os))"

text \<open>A sequence of levels written to a pin that is at \<open>lvl\<close>: each write changes the
  level, so rising and falling edges alternate.\<close>

fun alternating :: "bool \<Rightarrow> bool list \<Rightarrow> bool" where
  "alternating lvl [] = True"
| "alternating lvl (v # vs) = (v = (\<not> lvl) \<and> alternating v vs)"

text \<open>The tokens successive calls of \<open>strtok\<close> return on a line, until it returns
  \<open>NULL\<close>.\<close>

function strtok_all :: "string \<Rightarrow> string list" where
  "strtok_all s = (case strtok s of None \<Rightarrow> [] | Some (t, rest) \<Rightarrow> t # strtok_all rest)"
  by pat_completeness auto
termination
proof (relation "measure length")
  show "wf (measure length)" by simp
next
  fix s :: string and x2 t rest
  assume a: "strtok s = Some x2" and x: "(t, rest) = x2"
  define s1 where "s1 = dropWhile is_delim s"
  from a x have ne: "s1 \<noteq> []" and r: "rest = drop 1 (dropWhile (\<lambda>c. \<not> is_delim c) s1)"
    by (auto simp add: strtok_def Let_def s1_def split: if_splits)
  have "length rest < length s1"
  proof (cases "dropWhile (\<lambda>c. \<not> is_delim c) s1")
    case Nil
    with ne r show ?thesis by simp
  next
    case (Cons y ys)
    have "length (dropWhile (\<lambda>c. \<not> is_delim c) s1) \<le> length s1"
      by (rule length_dropWhile_le)
    with Cons r show ?thesis by simp
  qed
  moreover have "length s1 \<le> length s" by (simp add: s1_def length_dropWhile_le)
  ultimately show "(rest, s) \<in> measure length" by simp
qed

text \<open>An execution as commands and scheduler ticks in any order: \<open>Line s\<close> is a call
  \<open>handleLine(s)\<close>, \<open>Tick now\<close> a call of \<open>serviceStepper\<close> that samples the clock at
  \<open>now\<close>.\<close>

datatype event = Tick u32 | Line string

fun run_events :: "event list \<Rightarrow> 'w::len word Runner \<Rightarrow> 'w word Runner \<times> effect list" where
  "run_events [] r = (r, [])"
| "run_events (Tick now # es) r =
     (let (r1, o1) = serviceStepper now r; (r2, o2) = run_events es r1 in (r2, o1 @ o2))"
| "run_events (Line s # es) r =
     (let (r1, o1) = handleLine s r; (r2, o2) = run_events es r1 in (r2, o1 @ o2))"

text \<open>The command word of an event: the first token of a line, none for a tick.\<close>

definition cmd_word :: "event \<Rightarrow> string list" where
  "cmd_word ev = (case ev of Tick now \<Rightarrow> [] | Line s \<Rightarrow> take 1 (strtok_all s))"


text \<open>The low-to-high transitions of a pin that is at \<open>lvl\<close>, under a sequence of levels
  written to it.\<close>

fun pin_rises :: "bool \<Rightarrow> bool list \<Rightarrow> nat" where
  "pin_rises lvl [] = 0"
| "pin_rises lvl (v # vs) = (if \<not> lvl \<and> v then 1 else 0) + pin_rises v vs"

text \<open>The clock samples of free-running ticks, \<open>clk k\<close> at tick \<open>k\<close>: from one tick to the
  next the clock moves on by less than half its range, possibly not at all (two ticks may
  read the same value), and it never stands still for good.\<close>

definition clock_advances :: "(nat \<Rightarrow> u32) \<Rightarrow> bool" where
  "clock_advances clk \<longleftrightarrow>
     (\<forall>k. unat (clk (Suc k) - clk k) < 2 ^ 31) \<and> (\<forall>k. \<exists>j\<ge>k. clk (Suc j) \<noteq> clk j)"

section \<open>Speed setting\<close>

lemma sint_small_numeral:
  fixes x :: "'w::len word"
  assumes "0 \<le> k" "k \<le> sint x"
  shows "sint (word_of_int k :: 'w word) = k"
proof -
  have "k < 2 ^ (LENGTH('w) - 1)"
    using assms(2) sint_lt [of x] by linarith
  moreover have "- (2 ^ (LENGTH('w) - 1)) \<le> k"
  proof -
    have "(0::int) \<le> 2 ^ (LENGTH('w) - 1)" by simp
    with assms(1) show ?thesis by linarith
  qed
  ultimately show ?thesis
    by (simp add: sint_sbintrunc' signed_take_bit_int_eq_self)
qed

lemma sint_one_word:
  assumes "2 \<le> LENGTH('w::len)"
  shows "sint (1 :: 'w word) = 1"
proof -
  have "(2::int) ^ 1 \<le> 2 ^ (LENGTH('w) - 1)"
    by (rule power_increasing) (use assms in auto)
  then have "(1::int) < 2 ^ (LENGTH('w) - 1)" by simp
  moreover have "- (2 ^ (LENGTH('w) - 1)) \<le> (1::int)"
  proof -
    have "(0::int) \<le> 2 ^ (LENGTH('w) - 1)" by simp
    then show ?thesis by linarith
  qed
  ultimately have "sint (word_of_int 1 :: 'w word) = 1"
    by (simp only: sint_sbintrunc' signed_take_bit_int_eq_self)
  then show ?thesis by simp
qed


lemma clamped_word:
  fixes sps :: "'w::len word"
  assumes "2 \<le> LENGTH('w)"
  shows "sint (if sint (if sint sps < 1 then 1 else sps) > 40000 then 40000 else (if sint sps < 1 then 1 else sps)) = max 1 (min 40000 (sint sps))"
proof (cases "sint sps < 1")
  case True
  then show ?thesis using sint_one_word [OF assms] by simp
next
  case False
  show ?thesis
  proof (cases "sint sps > 40000")
    case True
    have "sint (word_of_int 40000 :: 'w word) = 40000"
      by (rule sint_small_numeral [of _ sps]) (use True in auto)
    then show ?thesis using True False by simp
  next
    case False
    then show ?thesis using \<open>\<not> sint sps < 1\<close> by simp
  qed
qed

lemma u32_div_clamped:
  assumes "1 \<le> c" "c \<le> 40000"
  shows "(1000000 :: u32) div word_of_int c = word_of_int (1000000 div c)"
proof -
  have "uint (word_of_int c :: u32) = c"
    using assms by (simp add: uint_word_of_int take_bit_eq_mod)
  then show ?thesis by (simp add: word_div_def)
qed

text \<open>
  Claim C5.  For every \<open>int\<close> value \<open>sps\<close>, of whatever width the platform gives \<open>int\<close>,
  \<open>setSpeedSps\<close> clamps it to \<open>c\<close> in 1..40000, stores \<open>c\<close> as \<open>lastSps\<close>, sets
  \<open>stepIntervalUs\<close> to \<open>1000000 / c\<close> raised to \<open>pulseWidthUs + 4\<close> when it is smaller, and
  changes no other field, \<open>nextStepUs\<close> in particular.  Afterwards
  \<open>pulseWidthUs + 4 \<le> stepIntervalUs\<close> holds in the unsigned 32-bit arithmetic of the
  code, and in the natural numbers whenever \<open>pulseWidthUs + 4\<close> does not wrap (the sketch
  never changes \<open>pulseWidthUs\<close> from 3).
\<close>

theorem setSpeedSps_clamps:
  fixes sps :: "'w::len word" and r :: "'w word Runner"
  assumes len: "2 \<le> LENGTH('w)"
  shows "let c = max 1 (min 40000 (sint sps)); r' = setSpeedSps sps r in
           r' = r\<lparr>lastSps := word_of_int c,
                  stepIntervalUs := max (word_of_int (1000000 div c)) (pulseWidthUs r + 4)\<rparr>
         \<and> sint (lastSps r') = c \<and> 1 \<le> c \<and> c \<le> 40000
         \<and> pulseWidthUs r' + 4 \<le> stepIntervalUs r'
         \<and> (unat (pulseWidthUs r) + 4 < 2 ^ 32 \<longrightarrow>
                unat (pulseWidthUs r') + 4 \<le> unat (stepIntervalUs r'))
         \<and> nextStepUs r' = nextStepUs r"
proof -
  define c where "c = max 1 (min 40000 (sint sps))"
  define s2 :: "'w word" where
    "s2 = (if sint (if sint sps < 1 then 1 else sps) > 40000 then 40000
           else (if sint sps < 1 then 1 else sps))"
  define iv :: u32 where "iv = max (word_of_int (1000000 div c)) (pulseWidthUs r + 4)"
  have c_range: "1 \<le> c" "c \<le> 40000" by (simp_all add: c_def)
  have s2_sint: "sint s2 = c"
    unfolding s2_def c_def by (rule clamped_word [OF len])
  then have s2_word: "s2 = word_of_int c"
    by (metis of_int_sint scast_id scast_eq)
  have cast: "(scast s2 :: u32) = word_of_int c"
    by (simp add: scast_eq s2_sint)
  have "setSpeedSps sps r =
          (let r2 = r\<lparr>lastSps := s2, stepIntervalUs := 1000000 div scast s2\<rparr>
           in if stepIntervalUs r2 < pulseWidthUs r2 + 4
              then r2\<lparr>stepIntervalUs := pulseWidthUs r2 + 4\<rparr> else r2)"
    by (simp add: setSpeedSps_def Let_def s2_def)
  also have "\<dots> = r\<lparr>lastSps := s2, stepIntervalUs := iv\<rparr>"
    by (auto simp add: Let_def cast u32_div_clamped [OF c_range] iv_def max_def not_less)
  also have "\<dots> = r\<lparr>lastSps := word_of_int c, stepIntervalUs := iv\<rparr>"
    by (simp only: s2_word)
  finally have eq: "setSpeedSps sps r = r\<lparr>lastSps := word_of_int c, stepIntervalUs := iv\<rparr>" .
  have le: "pulseWidthUs r + 4 \<le> iv" by (simp add: iv_def)
  have nowrap: "unat (pulseWidthUs r) + 4 \<le> unat iv" if "unat (pulseWidthUs r) + 4 < 2 ^ 32"
  proof -
    have "unat (pulseWidthUs r + 4) = unat (pulseWidthUs r) + 4"
      using that by (simp add: unat_word_ariths)
    with le show ?thesis by (simp add: word_le_nat_alt)
  qed
  show ?thesis
    unfolding Let_def c_def [symmetric] eq
    using c_range le nowrap s2_sint s2_word by (simp add: iv_def [symmetric])
qed

theorem setSpeedSps_clamps_witness:
  "2 \<le> LENGTH(32) \<and>
   setSpeedSps (1000000 :: 32 word) Runner_init = Runner_init\<lparr>lastSps := 40000, stepIntervalUs := 25\<rparr> \<and>
   setSpeedSps (0 :: 32 word) Runner_init = Runner_init\<lparr>lastSps := 1, stepIntervalUs := 1000000\<rparr>"
  using setSpeedSps_clamps [of "1000000 :: 32 word" Runner_init]
        setSpeedSps_clamps [of "0 :: 32 word" Runner_init]
  by (simp add: Let_def Runner_init_def)

section \<open>Deadlines across the clock's wrap-around\<close>

lemma sint_elapsed:
  assumes "e < 2 ^ 31"
  shows "sint (of_nat e :: u32) = int e"
proof -
  have "(of_nat e :: u32) = word_of_int (int e)" by simp
  moreover have "signed_take_bit 31 (int e) = int e"
    by (rule signed_take_bit_int_eq_self) (use assms in auto)
  ultimately show ?thesis by (simp only: sint_sbintrunc') simp
qed

lemma sint_early:
  assumes "0 < e" "e \<le> 2 ^ 31"
  shows "sint (- of_nat e :: u32) = - int e"
proof -
  have "(- of_nat e :: u32) = word_of_int (- int e)" by simp
  moreover have "signed_take_bit 31 (- int e) = - int e"
    by (rule signed_take_bit_int_eq_self) (use assms in auto)
  ultimately show ?thesis by (simp only: sint_sbintrunc') simp
qed

text \<open>
  Claim C3.  Both deadline tests of \<open>serviceStepper\<close> are the sign of the 32-bit difference
  \<open>now - deadline\<close>.  Whatever the deadline, also one just below \<open>2^32\<close>: a clock sample
  \<open>e < 2^31\<close> microseconds past it (computed with wrap-around) releases an active pulse,
  and starts a step when one is due; a clock sample \<open>e\<close> microseconds before it, for
  \<open>0 < e \<le> 2^31\<close>, changes nothing and writes nothing.
\<close>

theorem deadline_wraparound_safe:
  fixes r :: "'i Runner" and e :: nat
  shows "(e < 2 ^ 31 \<longrightarrow>
           (stepHigh r \<longrightarrow>
              serviceStepper (stepHighUntilUs r + of_nat e) r
                = (r\<lparr>stepHigh := False\<rparr>, [digitalWrite STEP_PIN False]))
         \<and> (\<not> stepHigh r \<and> enabled r \<and> (continuous r \<or> 0 < sint (remaining r)) \<longrightarrow>
              snd (serviceStepper (nextStepUs r + of_nat e) r) = [digitalWrite STEP_PIN True]
              \<and> stepHigh (fst (serviceStepper (nextStepUs r + of_nat e) r))))
       \<and> (0 < e \<and> e \<le> 2 ^ 31 \<longrightarrow>
           (stepHigh r \<longrightarrow> serviceStepper (stepHighUntilUs r - of_nat e) r = (r, []))
         \<and> (\<not> stepHigh r \<longrightarrow> serviceStepper (nextStepUs r - of_nat e) r = (r, [])))"
proof (intro conjI impI)
  assume e: "e < 2 ^ 31"
  then have s: "0 \<le> sint (of_nat e :: u32)" by (simp add: sint_elapsed)
  show "serviceStepper (stepHighUntilUs r + of_nat e) r
          = (r\<lparr>stepHigh := False\<rparr>, [digitalWrite STEP_PIN False])" if "stepHigh r"
    using that s by (simp add: serviceStepper_def)
  assume a: "\<not> stepHigh r \<and> enabled r \<and> (continuous r \<or> 0 < sint (remaining r))"
  show "snd (serviceStepper (nextStepUs r + of_nat e) r) = [digitalWrite STEP_PIN True]"
    using a s by (simp add: serviceStepper_def Let_def)
  show "stepHigh (fst (serviceStepper (nextStepUs r + of_nat e) r))"
    using a s by (simp add: serviceStepper_def Let_def)
next
  assume e: "0 < e \<and> e \<le> 2 ^ 31"
  then have s: "\<not> 0 \<le> sint (- of_nat e :: u32)" by (simp add: sint_early)
  show "serviceStepper (stepHighUntilUs r - of_nat e) r = (r, [])" if "stepHigh r"
    using that s by (simp add: serviceStepper_def)
  show "serviceStepper (nextStepUs r - of_nat e) r = (r, [])" if "\<not> stepHigh r"
    using that s by (simp add: serviceStepper_def Let_def)
qed

theorem deadline_wraparound_safe_witness:
  "(5::nat) < 2 ^ 31 \<and> (0::nat) < 5 \<and> (5::nat) \<le> 2 ^ 31
   \<and> serviceStepper (0xFFFFFFFD + 5)
         ((Runner_init :: 16 word Runner)\<lparr>stepHigh := True, stepHighUntilUs := 0xFFFFFFFD\<rparr>)
       = ((Runner_init :: 16 word Runner)\<lparr>stepHigh := False, stepHighUntilUs := 0xFFFFFFFD\<rparr>,
          [digitalWrite STEP_PIN False])
   \<and> snd (serviceStepper (0xFFFFFFFD + 5)
         ((Runner_init :: 16 word Runner)\<lparr>enabled := True, continuous := True,
                                           nextStepUs := 0xFFFFFFFD\<rparr>))
       = [digitalWrite STEP_PIN True]
   \<and> serviceStepper (2 - 5)
         ((Runner_init :: 16 word Runner)\<lparr>stepHigh := True, stepHighUntilUs := 2\<rparr>)
       = ((Runner_init :: 16 word Runner)\<lparr>stepHigh := True, stepHighUntilUs := 2\<rparr>, [])
   \<and> serviceStepper (2 - 5)
         ((Runner_init :: 16 word Runner)\<lparr>enabled := True, continuous := True, nextStepUs := 2\<rparr>)
       = ((Runner_init :: 16 word Runner)\<lparr>enabled := True, continuous := True, nextStepUs := 2\<rparr>, [])
   \<and> (0xFFFFFFFD + 5 :: u32) = 2"
  using deadline_wraparound_safe
          [of 5 "(Runner_init :: 16 word Runner)\<lparr>stepHigh := True, stepHighUntilUs := 0xFFFFFFFD\<rparr>"]
        deadline_wraparound_safe
          [of 5 "(Runner_init :: 16 word Runner)\<lparr>enabled := True, continuous := True,
                                 nextStepUs := 0xFFFFFFFD\<rparr>"]
        deadline_wraparound_safe
          [of 5 "(Runner_init :: 16 word Runner)\<lparr>stepHigh := True, stepHighUntilUs := 2\<rparr>"]
        deadline_wraparound_safe
          [of 5 "(Runner_init :: 16 word Runner)\<lparr>enabled := True, continuous := True,
                                 nextStepUs := 2\<rparr>"]
  by (simp add: Runner_init_def)

section \<open>Pulses never overlap\<close>

lemma step_writes_append [simp]: "step_writes (xs @ ys) = step_writes xs @ step_writes ys"
  by (induction xs rule: step_writes.induct) simp_all

lemma alternating_append:
  "alternating lvl (xs @ ys) \<longleftrightarrow> alternating lvl xs \<and> alternating (last (lvl # xs)) ys"
  by (induction xs arbitrary: lvl) auto

lemma setSpeedSps_frame [simp]:
  "enabled (setSpeedSps s r) = enabled r"
  "continuous (setSpeedSps s r) = continuous r"
  "dir (setSpeedSps s r) = dir r"
  "remaining (setSpeedSps s r) = remaining r"
  "pulseWidthUs (setSpeedSps s r) = pulseWidthUs r"
  "nextStepUs (setSpeedSps s r) = nextStepUs r"
  "stepHigh (setSpeedSps s r) = stepHigh r"
  "stepHighUntilUs (setSpeedSps s r) = stepHighUntilUs r"
  by (simp_all add: setSpeedSps_def Let_def)

lemma handleLine_pulse_frame:
  "stepHigh (fst (handleLine s r)) = stepHigh r
   \<and> stepHighUntilUs (fst (handleLine s r)) = stepHighUntilUs r
   \<and> nextStepUs (fst (handleLine s r)) = nextStepUs r
   \<and> pulseWidthUs (fst (handleLine s r)) = pulseWidthUs r
   \<and> step_writes (snd (handleLine s r)) = []"
  by (simp add: handleLine_def Let_def setEnable_def setDir_def printHelp_def
           split: option.split prod.split)


lemma serviceSerial_pulse_frame:
  "stepHigh (run (fst (serviceSerial inp st))) = stepHigh (run st)
   \<and> step_writes (snd (serviceSerial inp st)) = []"
proof (induction inp st rule: serviceSerial.induct)
  case (1 st)
  show ?case by simp
next
  case (2 c cs st)
  show ?case
  proof (cases "c = CHR 0x0D")
    case True
    with 2 show ?thesis by simp
  next
    case cr: False
    show ?thesis
    proof (cases "c = CHR 0x0A")
      case True
      obtain r1 o1 where h: "handleLine (c_str (lineBuf st)) (run st) = (r1, o1)"
        by (cases "handleLine (c_str (lineBuf st)) (run st)")
      have f: "stepHigh r1 = stepHigh (run st)" "step_writes o1 = []"
        using handleLine_pulse_frame [of "c_str (lineBuf st)" "run st"] h by simp_all
      have ih: "stepHigh (run (fst (serviceSerial cs (st\<lparr>run := r1, lineBuf := []\<rparr>)))) = stepHigh r1
                \<and> step_writes (snd (serviceSerial cs (st\<lparr>run := r1, lineBuf := []\<rparr>))) = []"
        using "2.IH"(2) [OF cr True h [symmetric]] by simp
      show ?thesis
        using cr True h f ih by (simp add: split_def Let_def)
    next
      case False
      with cr 2 show ?thesis by simp
    qed
  qed
qed

lemma serviceStepper_writes:
  "step_writes (snd (serviceStepper now r)) =
     (if stepHigh (fst (serviceStepper now r)) = stepHigh r then []
      else [stepHigh (fst (serviceStepper now r))])"
  by (simp add: serviceStepper_def Let_def)

lemma loop_writes:
  "step_writes (snd (loop inp now st)) =
     (if stepHigh (run (fst (loop inp now st))) = stepHigh (run st) then []
      else [stepHigh (run (fst (loop inp now st)))])"
proof -
  obtain st1 o1 where s: "serviceSerial inp st = (st1, o1)"
    by (cases "serviceSerial inp st")
  have f: "stepHigh (run st1) = stepHigh (run st)" "step_writes o1 = []"
    using serviceSerial_pulse_frame [of inp st] s by simp_all
  obtain r2 o2 where t: "serviceStepper now (run st1) = (r2, o2)"
    by (cases "serviceStepper now (run st1)")
  have "step_writes o2 = (if stepHigh r2 = stepHigh (run st1) then [] else [stepHigh r2])"
    using serviceStepper_writes [of now "run st1"] t by simp
  then show ?thesis
    using s t f by (simp add: loop_def)
qed

lemma run_loop_alternating:
  "alternating (stepHigh (run st)) (step_writes (snd (run_loop is st)))
   \<and> stepHigh (run (fst (run_loop is st)))
       = last (stepHigh (run st) # step_writes (snd (run_loop is st)))"
proof (induction "is" arbitrary: st)
  case Nil
  show ?case by simp
next
  case (Cons i "is")
  obtain inp now where i: "i = (inp, now)" by (cases i)
  obtain st1 o1 where l: "loop inp now st = (st1, o1)" by (cases "loop inp now st")
  have w: "step_writes o1 = (if stepHigh (run st1) = stepHigh (run st) then [] else [stepHigh (run st1)])"
    using loop_writes [of inp now st] l by simp
  obtain st2 o2 where rl: "run_loop is st1 = (st2, o2)" by (cases "run_loop is st1")
  have ih: "alternating (stepHigh (run st1)) (step_writes o2)"
           "stepHigh (run st2) = last (stepHigh (run st1) # step_writes o2)"
    using Cons.IH [of st1] rl by simp_all
  show ?case
    using i l rl w ih by (auto simp add: alternating_append)
qed

text \<open>
  Claim C1.  In every execution of \<open>loop\<close>, from any state and with any serial input and
  any clock samples, the writes to the step pin alternate, beginning with the opposite of
  \<open>stepHigh\<close>: no rising edge is written while a pulse is active, and each pulse's falling
  edge comes before the next rising edge.  This holds in particular from the state
  \<open>setup()\<close> leaves, where the pin is low.  In a single tick with \<open>stepHigh\<close> set,
  \<open>serviceStepper\<close> only evaluates the release rule: it either does nothing or clears
  \<open>stepHigh\<close> and writes the falling edge.
\<close>

theorem no_pulse_overlap:
  fixes st :: "'w::len word sketch" and r :: "'w word Runner"
  shows "alternating (stepHigh (run st)) (step_writes (snd (run_loop is st)))
       \<and> alternating False (step_writes (snd (run_loop is (fst (setup_sketch :: 'w word sketch \<times> effect list)))))
       \<and> (stepHigh r \<longrightarrow>
            digitalWrite STEP_PIN True \<notin> set (snd (serviceStepper now r))
            \<and> (serviceStepper now r = (r, [])
               \<or> serviceStepper now r = (r\<lparr>stepHigh := False\<rparr>, [digitalWrite STEP_PIN False])))"
proof (intro conjI impI)
  show "alternating (stepHigh (run st)) (step_writes (snd (run_loop is st)))"
    using run_loop_alternating [of st "is"] by simp
  have "stepHigh (run (fst (setup_sketch :: 'w word sketch \<times> effect list))) = False"
    by (simp add: setup_sketch_def setDir_def setEnable_def Runner_init_def)
  then show "alternating False (step_writes (snd (run_loop is (fst (setup_sketch :: 'w word sketch \<times> effect list)))))"
    using run_loop_alternating [of "fst (setup_sketch :: 'w word sketch \<times> effect list)" "is"] by simp
next
  assume "stepHigh r"
  then show "digitalWrite STEP_PIN True \<notin> set (snd (serviceStepper now r))"
    by (simp add: serviceStepper_def)
  from \<open>stepHigh r\<close>
  show "serviceStepper now r = (r, [])
        \<or> serviceStepper now r = (r\<lparr>stepHigh := False\<rparr>, [digitalWrite STEP_PIN False])"
    by (simp add: serviceStepper_def)
qed

theorem no_pulse_overlap_witness:
  "stepHigh ((Runner_init :: 16 word Runner)\<lparr>stepHigh := True, enabled := True, continuous := True\<rparr>)
   \<and> digitalWrite STEP_PIN True \<notin>
        set (snd (serviceStepper 10 ((Runner_init :: 16 word Runner)\<lparr>stepHigh := True, enabled := True, continuous := True\<rparr>)))
   \<and> step_writes (snd (run_loop [(''run 500'' @ [CHR 0x0A], 10), ([], 11), ([], 13), ([], 2009), ([], 2010), ([], 2013)]
                                  (fst (setup_sketch :: 16 word sketch \<times> effect list))))
       = [True, False, True, False]"
  using no_pulse_overlap [of "fst (setup_sketch :: 16 word sketch \<times> effect list)" "[]"
          "(Runner_init :: 16 word Runner)\<lparr>stepHigh := True, enabled := True, continuous := True\<rparr>" 10]
  by (simp add: Runner_init_def) code_simp

section \<open>Lines as token lists\<close>

declare strtok_all.simps [simp del]


lemma strtok_skip_delims: "strtok (dropWhile is_delim s) = strtok s"
  by (simp add: strtok_def)

lemma strtok_None_iff: "strtok s = None \<longleftrightarrow> dropWhile is_delim s = []"
  by (simp add: strtok_def Let_def)

lemma strtok_all_Nil: "strtok_all s = [] \<longleftrightarrow> dropWhile is_delim s = []"
proof -
  have "strtok_all s = [] \<longleftrightarrow> strtok s = None"
    by (subst strtok_all.simps) (simp split: option.splits)
  then show ?thesis by (simp only: strtok_None_iff)
qed

lemma strtok_all_Cons:
  assumes "strtok_all s = c # args"
  obtains rest where "strtok s = Some (c, rest)" "strtok_all rest = args" "dropWhile is_delim s \<noteq> []"
proof -
  from assms have "(case strtok s of None \<Rightarrow> [] | Some (t, rest) \<Rightarrow> t # strtok_all rest) = c # args"
    by (subst (asm) strtok_all.simps)
  then obtain rest where "strtok s = Some (c, rest)" "strtok_all rest = args"
    by (auto split: option.splits)
  moreover from this have "dropWhile is_delim s \<noteq> []"
    using strtok_None_iff [of s] by simp
  ultimately show ?thesis by (rule that)
qed

lemma next_tok_tokens:
  "fst (next_tok rest) = (case strtok_all rest of [] \<Rightarrow> None | a # _ \<Rightarrow> Some a)"
  "strtok_all (snd (next_tok rest)) = tl (strtok_all rest)"
proof -
  show "fst (next_tok rest) = (case strtok_all rest of [] \<Rightarrow> None | a # _ \<Rightarrow> Some a)"
    by (subst strtok_all.simps) (simp add: next_tok_def split: option.splits)
  have e: "strtok_all [] = []" by (simp add: strtok_all_Nil)
  show "strtok_all (snd (next_tok rest)) = tl (strtok_all rest)"
    by (subst (2) strtok_all.simps) (simp add: next_tok_def e split: option.splits)
qed

lemma handleLine_stop:
  assumes "take 1 (strtok_all s) = [''stop'']"
  shows "handleLine s r = (r\<lparr>continuous := False, remaining := 0\<rparr>, [Serial_println (Str ''stopped'')])"
proof -
  from assms obtain args where "strtok_all s = ''stop'' # args"
    by (cases "strtok_all s") auto
  then obtain rest where "strtok s = Some (''stop'', rest)" "dropWhile is_delim s \<noteq> []"
    by (rule strtok_all_Cons)
  then show ?thesis
    by (simp add: handleLine_def Let_def strtok_skip_delims)
qed

text \<open>What \<open>run\<close> and \<open>move\<close> leave, as functions of the parsed values.\<close>

lemma handleLine_run:
  assumes "strtok_all s = ''run'' # args"
  shows "handleLine s r =
    (let sps0 = (case args of [] \<Rightarrow> lastSps r | a # _ \<Rightarrow> atoi a);
         d = (sint sps0 < 0);
         sps = (if sint sps0 < 0 then - sps0 else sps0)
     in ((setSpeedSps sps (r\<lparr>dir := d\<rparr>))\<lparr>continuous := True, remaining := 0, enabled := True\<rparr>,
         [digitalWrite DIR_PIN d, digitalWrite EN_PIN False,
          Serial_print (Str ''run sps=''), Serial_print (Num (sint sps)),
          Serial_print (Str '' dir=''), Serial_println (of_bool_item d)]))"
proof -
  from assms obtain rest where t: "strtok s = Some (''run'', rest)" "dropWhile is_delim s \<noteq> []"
    and a: "strtok_all rest = args"
    by (rule strtok_all_Cons)
  obtain x rest1 where n: "next_tok rest = (x, rest1)" by (cases "next_tok rest")
  have x: "x = (case args of [] \<Rightarrow> None | a # _ \<Rightarrow> Some a)"
    using next_tok_tokens(1) [of rest] n a by simp
  show ?thesis
    using t n
    by (simp add: handleLine_def Let_def strtok_skip_delims x setDir_def setEnable_def
          EN_ACTIVE_LOW_def split: list.split)
qed

lemma handleLine_move:
  assumes "strtok_all s = ''move'' # a # bs"
  shows "handleLine s r =
    (let steps0 = atol a;
         sps0 = (case bs of [] \<Rightarrow> lastSps r | b # _ \<Rightarrow> atoi b);
         d = (sint steps0 < 0);
         steps = (if sint steps0 < 0 then - steps0 else steps0);
         sps = (if sint sps0 < 0 then - sps0 else sps0)
     in ((setSpeedSps sps (r\<lparr>dir := d\<rparr>))\<lparr>continuous := False, remaining := steps, enabled := True\<rparr>,
         [digitalWrite DIR_PIN d, digitalWrite EN_PIN False,
          Serial_print (Str ''move steps=''), Serial_print (Num (sint steps)),
          Serial_print (Str '' sps=''), Serial_print (Num (sint sps)),
          Serial_print (Str '' dir=''), Serial_println (of_bool_item d)]))"
proof -
  from assms obtain rest where t: "strtok s = Some (''move'', rest)" "dropWhile is_delim s \<noteq> []"
    and a: "strtok_all rest = a # bs"
    by (rule strtok_all_Cons)
  obtain x rest1 where n: "next_tok rest = (x, rest1)" by (cases "next_tok rest")
  have x: "x = Some a" and r1: "strtok_all rest1 = bs"
    using next_tok_tokens [of rest] n a by simp_all
  obtain y rest2 where m: "next_tok rest1 = (y, rest2)" by (cases "next_tok rest1")
  have y: "y = (case bs of [] \<Rightarrow> None | b # _ \<Rightarrow> Some b)"
    using next_tok_tokens(1) [of rest1] m r1 by simp
  show ?thesis
    using t n m
    by (simp add: handleLine_def Let_def strtok_skip_delims x y setDir_def setEnable_def
          EN_ACTIVE_LOW_def split: list.split)
qed

section \<open>Stopping and continuous running\<close>

lemma handleLine_empty:
  assumes "strtok_all s = []"
  shows "handleLine s r = (r, [])"
  using assms by (simp add: strtok_all_Nil handleLine_def)

lemma handleLine_keeps_motion:
  assumes "take 1 (strtok_all s) \<noteq> [''run'']" "take 1 (strtok_all s) \<noteq> [''move'']"
    "take 1 (strtok_all s) \<noteq> [''stop'']"
  shows "continuous (fst (handleLine s r)) = continuous r
       \<and> remaining (fst (handleLine s r)) = remaining r"
proof (cases "strtok_all s")
  case Nil
  then show ?thesis by (simp add: handleLine_empty)
next
  case (Cons c args)
  then obtain rest where t: "strtok s = Some (c, rest)" "dropWhile is_delim s \<noteq> []"
    by (rule strtok_all_Cons)
  from Cons assms have "c \<noteq> ''run''" "c \<noteq> ''move''" "c \<noteq> ''stop''" by simp_all
  then show ?thesis
    using t
    by (simp add: handleLine_def Let_def strtok_skip_delims setEnable_def setDir_def
          split: option.split prod.split)
qed

lemma handleLine_keeps_enabled:
  assumes "take 1 (strtok_all s) \<noteq> [''run'']" "take 1 (strtok_all s) \<noteq> [''move'']"
    "take 1 (strtok_all s) \<noteq> [''enable'']"
  shows "enabled (fst (handleLine s r)) = enabled r"
proof (cases "strtok_all s")
  case Nil
  then show ?thesis by (simp add: handleLine_empty)
next
  case (Cons c args)
  then obtain rest where t: "strtok s = Some (c, rest)" "dropWhile is_delim s \<noteq> []"
    by (rule strtok_all_Cons)
  from Cons assms have "c \<noteq> ''run''" "c \<noteq> ''move''" "c \<noteq> ''enable''" by simp_all
  then show ?thesis
    using t
    by (simp add: handleLine_def Let_def strtok_skip_delims setEnable_def setDir_def
          split: option.split prod.split)
qed

lemma rising_edges_append [simp]:
  "rising_edges (xs @ ys) = rising_edges xs + rising_edges ys"
  by (simp add: rising_edges_def)

lemma rising_edges_Nil [simp]: "rising_edges [] = 0"
  by (simp add: rising_edges_def)

lemma handleLine_no_edges [simp]: "rising_edges (snd (handleLine s r)) = 0"
  using handleLine_pulse_frame [of s r] by (simp add: rising_edges_def)

lemma serviceStepper_idle:
  assumes "\<not> (enabled r \<and> (continuous r \<or> 0 < sint (remaining r)))"
  shows "rising_edges (snd (serviceStepper now r)) = 0"
    and "enabled (fst (serviceStepper now r)) = enabled r"
    and "continuous (fst (serviceStepper now r)) = continuous r"
    and "remaining (fst (serviceStepper now r)) = remaining r"
  using assms by (auto simp add: serviceStepper_def Let_def rising_edges_def)

lemma run_events_stopped:
  assumes "\<not> continuous r" "remaining r = 0"
    and "\<forall>ev\<in>set evs. cmd_word ev \<notin> {[''run''], [''move'']}"
  shows "rising_edges (snd (run_events evs r)) = 0
       \<and> \<not> continuous (fst (run_events evs r)) \<and> remaining (fst (run_events evs r)) = 0"
  using assms
proof (induction evs arbitrary: r)
  case Nil
  then show ?case by simp
next
  case (Cons ev evs)
  show ?case
  proof (cases ev)
    case (Tick now)
    have idle: "\<not> (enabled r \<and> (continuous r \<or> 0 < sint (remaining r)))"
      using Cons.prems by simp
    obtain r1 o1 where s: "serviceStepper now r = (r1, o1)" by (cases "serviceStepper now r")
    have "rising_edges o1 = 0" "\<not> continuous r1" "remaining r1 = 0"
      using serviceStepper_idle [OF idle, of now] s Cons.prems by simp_all
    moreover from this have "rising_edges (snd (run_events evs r1)) = 0
       \<and> \<not> continuous (fst (run_events evs r1)) \<and> remaining (fst (run_events evs r1)) = 0"
      using Cons.IH [of r1] Cons.prems by simp
    ultimately show ?thesis using Tick s by (simp add: split_def Let_def)
  next
    case (Line s)
    obtain r1 o1 where h: "handleLine s r = (r1, o1)" by (cases "handleLine s r")
    have nrm: "take 1 (strtok_all s) \<noteq> [''run'']" "take 1 (strtok_all s) \<noteq> [''move'']"
      using Cons.prems(3) Line by (simp_all add: cmd_word_def)
    have "\<not> continuous r1 \<and> remaining r1 = 0"
    proof (cases "take 1 (strtok_all s) = [''stop'']")
      case True
      then show ?thesis using handleLine_stop [of s r] h by simp
    next
      case False
      then show ?thesis using handleLine_keeps_motion [OF nrm, of r] h Cons.prems by simp
    qed
    moreover have "rising_edges o1 = 0" using handleLine_no_edges [of s r] h by simp
    moreover have "rising_edges (snd (run_events evs r1)) = 0
       \<and> \<not> continuous (fst (run_events evs r1)) \<and> remaining (fst (run_events evs r1)) = 0"
      using Cons.IH [of r1] Cons.prems calculation by simp
    ultimately show ?thesis using Line h by (simp add: split_def Let_def)
  qed
qed

text \<open>
  Claim C7.  The line \<open>stop\<close> (and any line whose first word is \<open>stop\<close>) clears
  \<open>continuous\<close>, sets \<open>remaining\<close> to 0, prints "stopped" and does nothing else: every
  other field of \<open>run\<close>, \<open>stepHigh\<close> and both deadlines among them, is as before, and no
  pin is written.  A pulse in flight is released by the scheduler tick that samples the
  clock at or after \<open>stepHighUntilUs\<close> (within half the clock's range) and by none before
  it.  After \<open>stop\<close>, whatever ticks and commands follow, no rising edge is written as long
  as no \<open>run\<close> or \<open>move\<close> command is among them.
\<close>

theorem stop_effect:
  fixes r :: "'w::len word Runner"
  shows "handleLine ''stop'' r
           = (r\<lparr>continuous := False, remaining := 0\<rparr>, [Serial_println (Str ''stopped'')])
       \<and> (take 1 (strtok_all s) = [''stop''] \<longrightarrow> handleLine s r = handleLine ''stop'' r)
       \<and> (stepHigh r \<and> e < 2 ^ 31 \<longrightarrow>
            serviceStepper (stepHighUntilUs r + of_nat e) (fst (handleLine ''stop'' r))
              = (r\<lparr>continuous := False, remaining := 0, stepHigh := False\<rparr>,
                 [digitalWrite STEP_PIN False]))
       \<and> (stepHigh r \<and> 0 < e \<and> e \<le> 2 ^ 31 \<longrightarrow>
            serviceStepper (stepHighUntilUs r - of_nat e) (fst (handleLine ''stop'' r))
              = (r\<lparr>continuous := False, remaining := 0\<rparr>, []))
       \<and> ((\<forall>ev\<in>set evs. cmd_word ev \<notin> {[''run''], [''move'']}) \<longrightarrow>
            rising_edges (snd (run_events evs (fst (handleLine ''stop'' r)))) = 0)"
proof -
  have w: "take 1 (strtok_all ''stop'') = [''stop'']"
    by (simp add: strtok_all.simps strtok_def is_delim_def)
  have stop: "handleLine ''stop'' r
           = (r\<lparr>continuous := False, remaining := 0\<rparr>, [Serial_println (Str ''stopped'')])"
    by (rule handleLine_stop [OF w])
  have any: "handleLine s r = handleLine ''stop'' r" if "take 1 (strtok_all s) = [''stop'']"
    using handleLine_stop [OF that, of r] stop by simp
  have rel: "serviceStepper (stepHighUntilUs r + of_nat e) (fst (handleLine ''stop'' r))
              = (r\<lparr>continuous := False, remaining := 0, stepHigh := False\<rparr>,
                 [digitalWrite STEP_PIN False])" if "stepHigh r" "e < 2 ^ 31"
    using that sint_elapsed [of e] by (simp add: stop serviceStepper_def)
  have early: "serviceStepper (stepHighUntilUs r - of_nat e) (fst (handleLine ''stop'' r))
              = (r\<lparr>continuous := False, remaining := 0\<rparr>, [])"
    if "stepHigh r" "0 < e" "e \<le> 2 ^ 31"
    using that sint_early [of e] by (simp add: stop serviceStepper_def)
  have quiet: "rising_edges (snd (run_events evs (fst (handleLine ''stop'' r)))) = 0"
    if "\<forall>ev\<in>set evs. cmd_word ev \<notin> {[''run''], [''move'']}"
    using run_events_stopped [of "r\<lparr>continuous := False, remaining := 0\<rparr>" evs] that
    by (simp add: stop)
  show ?thesis using stop any rel early quiet by blast
qed


theorem stop_effect_witness:
  "take 1 (strtok_all ''  stop now'') = [''stop'']
   \<and> stepHigh ((Runner_init :: 16 word Runner)\<lparr>enabled := True, continuous := True, stepHigh := True\<rparr>)
   \<and> (5::nat) < 2 ^ 31 \<and> (0::nat) < 5 \<and> (5::nat) \<le> 2 ^ 31
   \<and> list_all (\<lambda>ev. cmd_word ev \<notin> {[''run''], [''move'']})
         [Tick 10, Line ''enable 1'', Tick 3000, Line ''dir 1'', Tick 6000]
   \<and> handleLine ''  stop now'' ((Runner_init :: 16 word Runner)\<lparr>enabled := True, continuous := True, stepHigh := True\<rparr>)
       = handleLine ''stop'' ((Runner_init :: 16 word Runner)\<lparr>enabled := True, continuous := True, stepHigh := True\<rparr>)
   \<and> rising_edges (snd (run_events [Tick 10, Line ''enable 1'', Tick 3000, Line ''dir 1'', Tick 6000]
         (fst (handleLine ''stop'' ((Runner_init :: 16 word Runner)\<lparr>enabled := True, continuous := True, stepHigh := True\<rparr>))))) = 0"
proof -
  have t: "take 1 (strtok_all ''  stop now'') = [''stop'']"
    by (simp add: strtok_all.simps strtok_def is_delim_def)
  have h: "stepHigh ((Runner_init :: 16 word Runner)\<lparr>enabled := True, continuous := True, stepHigh := True\<rparr>)"
    by simp
  have n: "(5::nat) < 2 ^ 31 \<and> (0::nat) < 5 \<and> (5::nat) \<le> 2 ^ 31"
    by simp
  have q: "\<forall>ev\<in>set [Tick 10, Line ''enable 1'', Tick 3000, Line ''dir 1'', Tick 6000].
         cmd_word ev \<notin> {[''run''], [''move'']}"
    by (simp add: cmd_word_def strtok_all.simps strtok_def is_delim_def)
  show ?thesis
    unfolding list_all_iff
    using t h n q
      stop_effect [of "(Runner_init :: 16 word Runner)\<lparr>enabled := True, continuous := True, stepHigh := True\<rparr>"
        "''  stop now''" 5 "[Tick 10, Line ''enable 1'', Tick 3000, Line ''dir 1'', Tick 6000]"]
    by blast
qed

lemma run_events_continuous:
  assumes "continuous r" "remaining r = 0"
    and "\<forall>ev\<in>set evs. cmd_word ev \<notin> {[''move''], [''stop'']}"
  shows "continuous (fst (run_events evs r)) \<and> remaining (fst (run_events evs r)) = 0"
  using assms
proof (induction evs arbitrary: r)
  case Nil
  then show ?case by simp
next
  case (Cons ev evs)
  show ?case
  proof (cases ev)
    case (Tick now)
    obtain r1 o1 where s: "serviceStepper now r = (r1, o1)" by (cases "serviceStepper now r")
    have "continuous r1" "remaining r1 = 0"
      using s Cons.prems(1,2) by (auto simp add: serviceStepper_def Let_def split: if_splits)
    then have "continuous (fst (run_events evs r1)) \<and> remaining (fst (run_events evs r1)) = 0"
      using Cons.IH [of r1] Cons.prems by simp
    then show ?thesis using Tick s by (simp add: split_def Let_def)
  next
    case (Line s)
    obtain r1 o1 where h: "handleLine s r = (r1, o1)" by (cases "handleLine s r")
    have nms: "take 1 (strtok_all s) \<noteq> [''move'']" "take 1 (strtok_all s) \<noteq> [''stop'']"
      using Cons.prems(3) Line by (simp_all add: cmd_word_def)
    have "continuous r1 \<and> remaining r1 = 0"
    proof (cases "take 1 (strtok_all s) = [''run'']")
      case True
      then obtain args where "strtok_all s = ''run'' # args"
        by (cases "strtok_all s") auto
      then show ?thesis using handleLine_run [of s args r] h by (simp add: Let_def)
    next
      case False
      then show ?thesis
        using handleLine_keeps_motion [OF False nms, of r] h Cons.prems by simp
    qed
    then have "continuous (fst (run_events evs r1)) \<and> remaining (fst (run_events evs r1)) = 0"
      using Cons.IH [of r1] Cons.prems by simp
    then show ?thesis using Line h by (simp add: split_def Let_def)
  qed
qed

text \<open>
  Claim C9.  A \<open>run\<close> command, with or without a speed, sets \<open>continuous\<close> and sets
  \<open>remaining\<close> to 0.  A scheduler tick in a state with \<open>continuous\<close> set leaves
  \<open>remaining\<close> as it is, whether or not its rising edge fires.  So after \<open>run\<close>,
  \<open>remaining\<close> is 0 after any number of ticks and commands, as long as none of the commands
  is \<open>move\<close> or \<open>stop\<close>.
\<close>

theorem continuous_remaining_zero:
  fixes r :: "'w::len word Runner"
  shows "(strtok_all s = ''run'' # args \<longrightarrow>
            continuous (fst (handleLine s r)) \<and> remaining (fst (handleLine s r)) = 0)
       \<and> (continuous r \<longrightarrow>
            remaining (fst (serviceStepper now r)) = remaining r
            \<and> continuous (fst (serviceStepper now r)))
       \<and> (strtok_all s = ''run'' # args
            \<and> (\<forall>ev\<in>set evs. cmd_word ev \<notin> {[''move''], [''stop'']}) \<longrightarrow>
            continuous (fst (run_events evs (fst (handleLine s r))))
            \<and> remaining (fst (run_events evs (fst (handleLine s r)))) = 0)"
proof -
  have a: "continuous (fst (handleLine s r)) \<and> remaining (fst (handleLine s r)) = 0"
    if "strtok_all s = ''run'' # args"
    using handleLine_run [OF that, of r] by (simp add: Let_def)
  have b: "remaining (fst (serviceStepper now r)) = remaining r
            \<and> continuous (fst (serviceStepper now r))" if "continuous r"
    using that by (simp add: serviceStepper_def Let_def)
  have c: "continuous (fst (run_events evs (fst (handleLine s r))))
            \<and> remaining (fst (run_events evs (fst (handleLine s r)))) = 0"
    if "strtok_all s = ''run'' # args" "\<forall>ev\<in>set evs. cmd_word ev \<notin> {[''move''], [''stop'']}"
    using run_events_continuous [of "fst (handleLine s r)" evs] a that by simp
  show ?thesis using a b c by blast
qed

theorem continuous_remaining_zero_witness:
  "strtok_all ''run -500'' = ''run'' # [''-500'']
   \<and> continuous (fst (handleLine ''run -500'' (Runner_init :: 16 word Runner)))
   \<and> list_all (\<lambda>ev. cmd_word ev \<notin> {[''move''], [''stop'']})
         [Tick 10, Tick 13, Tick 2010, Line ''run'', Tick 2013, Tick 4010]
   \<and> remaining (fst (run_events [Tick 10, Tick 13, Tick 2010, Line ''run'', Tick 2013, Tick 4010]
                        (fst (handleLine ''run -500'' (Runner_init :: 16 word Runner))))) = 0
   \<and> rising_edges (snd (run_events [Tick 10, Tick 13, Tick 2010, Line ''run'', Tick 2013, Tick 4010]
                        (fst (handleLine ''run -500'' (Runner_init :: 16 word Runner))))) = 3
   \<and> remaining (fst (serviceStepper 10 (fst (handleLine ''run -500'' (Runner_init :: 16 word Runner)))))
       = remaining (fst (handleLine ''run -500'' (Runner_init :: 16 word Runner)))"
proof -
  have t: "strtok_all ''run -500'' = ''run'' # [''-500'']"
    by (simp add: strtok_all.simps strtok_def is_delim_def)
  have q: "\<forall>ev\<in>set [Tick 10, Tick 13, Tick 2010, Line ''run'', Tick 2013, Tick 4010].
         cmd_word ev \<notin> {[''move''], [''stop'']}"
    by (simp add: cmd_word_def strtok_all.simps strtok_def is_delim_def)
  have e: "rising_edges (snd (run_events [Tick 10, Tick 13, Tick 2010, Line ''run'', Tick 2013, Tick 4010]
                        (fst (handleLine ''run -500'' (Runner_init :: 16 word Runner))))) = 3"
    by code_simp
  show ?thesis
    unfolding list_all_iff
    using t q e
      continuous_remaining_zero [of "''run -500''" "[''-500'']" "Runner_init :: 16 word Runner" 10
         "[Tick 10, Tick 13, Tick 2010, Line ''run'', Tick 2013, Tick 4010]"]
      continuous_remaining_zero [of "''run -500''" "[''-500'']"
         "fst (handleLine ''run -500'' (Runner_init :: 16 word Runner))" 10 "[]"]
    by blast
qed

section \<open>Disabling the driver\<close>


lemma handleLine_enable:
  fixes r :: "'w::len word Runner"
  assumes "strtok_all s = ''enable'' # args"
  shows "handleLine s r =
    (let on = (case args of [] \<Rightarrow> False | a # _ \<Rightarrow> (atoi a :: 'w word) \<noteq> 0)
     in (r\<lparr>enabled := on\<rparr>,
         [digitalWrite EN_PIN (\<not> on), Serial_print (Str ''enable=''),
          Serial_println (of_bool_item on)]))"
proof -
  from assms obtain rest where t: "strtok s = Some (''enable'', rest)" "dropWhile is_delim s \<noteq> []"
    and a: "strtok_all rest = args"
    by (rule strtok_all_Cons)
  obtain x rest1 where n: "next_tok rest = (x, rest1)" by (cases "next_tok rest")
  have x: "x = (case args of [] \<Rightarrow> None | a # _ \<Rightarrow> Some a)"
    using next_tok_tokens(1) [of rest] n a by simp
  show ?thesis
    using t n
    by (simp add: handleLine_def Let_def strtok_skip_delims x setEnable_def
          EN_ACTIVE_LOW_def split: list.split)
qed


lemma run_ticks_append:
  "run_ticks (ts @ us) r =
     (let (r1, o1) = run_ticks ts r; (r2, o2) = run_ticks us r1 in (r2, o1 @ o2))"
  by (induction ts arbitrary: r) (simp_all add: split_def Let_def)

lemma run_ticks_early:
  assumes "stepHigh r" "\<forall>e\<in>set early. 0 < e \<and> e \<le> 2 ^ 31"
  shows "run_ticks (map (\<lambda>e. stepHighUntilUs r - of_nat e) early) r = (r, [])"
  using assms(2)
proof (induction early)
  case Nil
  show ?case by simp
next
  case (Cons e early)
  have "serviceStepper (stepHighUntilUs r - of_nat e) r = (r, [])"
    using assms(1) Cons.prems sint_early [of e] by (simp add: serviceStepper_def)
  then show ?case using Cons by simp
qed

lemma run_events_disabled:
  assumes "\<not> enabled r"
    and "\<forall>ev\<in>set evs. cmd_word ev \<notin> {[''enable''], [''run''], [''move'']}"
  shows "rising_edges (snd (run_events evs r)) = 0 \<and> \<not> enabled (fst (run_events evs r))"
  using assms
proof (induction evs arbitrary: r)
  case Nil
  then show ?case by simp
next
  case (Cons ev evs)
  show ?case
  proof (cases ev)
    case (Tick now)
    have idle: "\<not> (enabled r \<and> (continuous r \<or> 0 < sint (remaining r)))"
      using Cons.prems by simp
    obtain r1 o1 where s: "serviceStepper now r = (r1, o1)" by (cases "serviceStepper now r")
    have f: "rising_edges o1 = 0" "\<not> enabled r1"
      using serviceStepper_idle(1,2) [OF idle, of now] s Cons.prems by simp_all
    then have "rising_edges (snd (run_events evs r1)) = 0 \<and> \<not> enabled (fst (run_events evs r1))"
      using Cons.IH [of r1] Cons.prems by simp
    then show ?thesis using Tick s f by (simp add: split_def Let_def)
  next
    case (Line s)
    obtain r1 o1 where h: "handleLine s r = (r1, o1)" by (cases "handleLine s r")
    have n: "take 1 (strtok_all s) \<noteq> [''run'']" "take 1 (strtok_all s) \<noteq> [''move'']"
      "take 1 (strtok_all s) \<noteq> [''enable'']"
      using Cons.prems(2) Line by (simp_all add: cmd_word_def)
    have f: "\<not> enabled r1" "rising_edges o1 = 0"
      using handleLine_keeps_enabled [OF n, of r] handleLine_no_edges [of s r] h Cons.prems
      by simp_all
    then have "rising_edges (snd (run_events evs r1)) = 0 \<and> \<not> enabled (fst (run_events evs r1))"
      using Cons.IH [of r1] Cons.prems by simp
    then show ?thesis using Line h f by (simp add: split_def Let_def)
  qed
qed

text \<open>
  Claim C6.  \<open>setEnable(false)\<close> clears \<open>enabled\<close> and writes the enable pin, nothing else:
  \<open>stepHigh\<close> and \<open>stepHighUntilUs\<close> are untouched and the step pin is not written (the
  command \<open>enable 0\<close> does this and prints).  Called while a pulse is active, the ticks
  that sample the clock before \<open>stepHighUntilUs\<close> leave the pulse asserted, and the first
  tick at or after it (within half the clock's range) writes the falling edge and clears
  \<open>stepHigh\<close>.  From a state with \<open>enabled\<close> clear, no rising edge is written in any run
  of ticks and commands that has no \<open>enable\<close>, \<open>run\<close> or \<open>move\<close> command, and
  \<open>enabled\<close> stays clear.
\<close>

theorem disable_mid_pulse:
  fixes r r' :: "'w::len word Runner"
  shows "setEnable False r = (r\<lparr>enabled := False\<rparr>, [digitalWrite EN_PIN True])
       \<and> (strtok_all s = [''enable'', a] \<and> (atoi a :: 'w word) = 0 \<longrightarrow>
            fst (handleLine s r) = fst (setEnable False r)
            \<and> step_writes (snd (handleLine s r)) = [])
       \<and> (stepHigh r \<and> (\<forall>x\<in>set early. 0 < x \<and> x \<le> 2 ^ 31) \<and> e < 2 ^ 31 \<longrightarrow>
            run_ticks (map (\<lambda>x. stepHighUntilUs r - of_nat x) early @ [stepHighUntilUs r + of_nat e])
                      (fst (setEnable False r))
              = (r\<lparr>enabled := False, stepHigh := False\<rparr>, [digitalWrite STEP_PIN False]))
       \<and> (\<not> enabled r'
            \<and> (\<forall>ev\<in>set evs. cmd_word ev \<notin> {[''enable''], [''run''], [''move'']}) \<longrightarrow>
            rising_edges (snd (run_events evs r')) = 0 \<and> \<not> enabled (fst (run_events evs r')))"
proof -
  have se: "setEnable False r = (r\<lparr>enabled := False\<rparr>, [digitalWrite EN_PIN True])"
    by (simp add: setEnable_def EN_ACTIVE_LOW_def)
  have cmd: "fst (handleLine s r) = fst (setEnable False r) \<and> step_writes (snd (handleLine s r)) = []"
    if "strtok_all s = [''enable'', a]" "(atoi a :: 'w word) = 0"
    using handleLine_enable [OF that(1), of r] that(2) by (simp add: se)
  have rel: "run_ticks (map (\<lambda>x. stepHighUntilUs r - of_nat x) early @ [stepHighUntilUs r + of_nat e])
                      (fst (setEnable False r))
              = (r\<lparr>enabled := False, stepHigh := False\<rparr>, [digitalWrite STEP_PIN False])"
    if h: "stepHigh r" and ea: "\<forall>x\<in>set early. 0 < x \<and> x \<le> 2 ^ 31" and e: "e < 2 ^ 31"
  proof -
    let ?r = "r\<lparr>enabled := False\<rparr>"
    have 1: "run_ticks (map (\<lambda>x. stepHighUntilUs ?r - of_nat x) early) ?r = (?r, [])"
      by (rule run_ticks_early) (use h ea in simp_all)
    have 2: "serviceStepper (stepHighUntilUs r + of_nat e) ?r
               = (r\<lparr>enabled := False, stepHigh := False\<rparr>, [digitalWrite STEP_PIN False])"
      using h sint_elapsed [OF e] by (simp add: serviceStepper_def)
    show ?thesis using 1 2 by (simp add: se run_ticks_append)
  qed
  have quiet: "rising_edges (snd (run_events evs r')) = 0 \<and> \<not> enabled (fst (run_events evs r'))"
    if "\<not> enabled r'" "\<forall>ev\<in>set evs. cmd_word ev \<notin> {[''enable''], [''run''], [''move'']}"
    using run_events_disabled [OF that] .
  show ?thesis using se cmd rel quiet by blast
qed

theorem disable_mid_pulse_witness:
  "strtok_all ''enable 0'' = [''enable'', ''0''] \<and> (atoi ''0'' :: 16 word) = 0
   \<and> stepHigh ((Runner_init :: 16 word Runner)\<lparr>enabled := True, continuous := True, stepHigh := True, stepHighUntilUs := 1\<rparr>)
   \<and> list_all (\<lambda>x. 0 < x \<and> x \<le> 2 ^ 31) [3, 2 :: nat] \<and> (4::nat) < 2 ^ 31
   \<and> \<not> enabled ((Runner_init :: 16 word Runner)\<lparr>continuous := True\<rparr>)
   \<and> list_all (\<lambda>ev. cmd_word ev \<notin> {[''enable''], [''run''], [''move'']})
         [Tick 10, Line ''dir 1'', Tick 3000, Line ''stop'', Tick 6000]
   \<and> fst (handleLine ''enable 0'' ((Runner_init :: 16 word Runner)\<lparr>enabled := True, continuous := True, stepHigh := True, stepHighUntilUs := 1\<rparr>))
       = fst (setEnable False ((Runner_init :: 16 word Runner)\<lparr>enabled := True, continuous := True, stepHigh := True, stepHighUntilUs := 1\<rparr>))
   \<and> run_ticks [0xFFFFFFFE, 0xFFFFFFFF, 5]
         (fst (setEnable False ((Runner_init :: 16 word Runner)\<lparr>enabled := True, continuous := True, stepHigh := True, stepHighUntilUs := 1\<rparr>)))
       = ((Runner_init :: 16 word Runner)\<lparr>enabled := False, continuous := True, stepHigh := False, stepHighUntilUs := 1\<rparr>,
          [digitalWrite STEP_PIN False])
   \<and> rising_edges (snd (run_events [Tick 10, Line ''dir 1'', Tick 3000, Line ''stop'', Tick 6000]
         ((Runner_init :: 16 word Runner)\<lparr>continuous := True\<rparr>))) = 0"
proof -
  let ?R = "(Runner_init :: 16 word Runner)\<lparr>enabled := True, continuous := True, stepHigh := True, stepHighUntilUs := 1\<rparr>"
  have t: "strtok_all ''enable 0'' = [''enable'', ''0'']"
    by (simp add: strtok_all.simps strtok_def is_delim_def)
  have z: "(atoi ''0'' :: 16 word) = 0"
    by (simp add: atoi_def strtol10_def isspace_def isdigit_def)
  have h: "stepHigh ?R" by simp
  have ea: "\<forall>x\<in>set [3, 2 :: nat]. 0 < x \<and> x \<le> 2 ^ 31" by simp
  have e: "(4::nat) < 2 ^ 31" by simp
  have d: "\<not> enabled ((Runner_init :: 16 word Runner)\<lparr>continuous := True\<rparr>)"
    by (simp add: Runner_init_def)
  have q: "\<forall>ev\<in>set [Tick 10, Line ''dir 1'', Tick 3000, Line ''stop'', Tick 6000].
         cmd_word ev \<notin> {[''enable''], [''run''], [''move'']}"
    by (simp add: cmd_word_def strtok_all.simps strtok_def is_delim_def)
  have ts: "map (\<lambda>x. stepHighUntilUs ?R - of_nat x) [3, 2 :: nat] @ [stepHighUntilUs ?R + of_nat 4]
              = [0xFFFFFFFE, 0xFFFFFFFF, 5]"
    by simp
  have fin: "?R\<lparr>enabled := False, stepHigh := False\<rparr>
       = (Runner_init :: 16 word Runner)\<lparr>enabled := False, continuous := True, stepHigh := False, stepHighUntilUs := 1\<rparr>"
    by simp
  note th = disable_mid_pulse [of ?R "''enable 0''" "''0''" "[3, 2]" 4
      "(Runner_init :: 16 word Runner)\<lparr>continuous := True\<rparr>"
      "[Tick 10, Line ''dir 1'', Tick 3000, Line ''stop'', Tick 6000]", unfolded ts fin]
  show ?thesis
    unfolding list_all_iff
    using t z h ea e d q th by blast
qed

section \<open>The speed argument of a move\<close>











section \<open>Missing and unparseable arguments\<close>











section \<open>Finite moves\<close>

lemma u32_two_p32: "(of_nat (2 ^ 32) :: u32) = 0"
  by simp

lemma sint_nonneg_iff: "0 \<le> sint (w :: u32) \<longleftrightarrow> unat w < 2 ^ 31"
proof (cases "unat w < 2 ^ 31")
  case True
  have "sint (of_nat (unat w) :: u32) = int (unat w)"
    by (rule sint_elapsed [OF True])
  then have "sint w = int (unat w)" by simp
  with True show ?thesis by simp
next
  case False
  define e where "e = 2 ^ 32 - unat w"
  have lt: "unat w < 2 ^ 32" using unsigned_less [of w] by simp
  have e: "0 < e" "e \<le> 2 ^ 31" using False lt by (simp_all add: e_def)
  have "(of_nat e :: u32) + w = of_nat (e + unat w)" by simp
  also have "e + unat w = 2 ^ 32" using lt by (simp add: e_def)
  finally have "(of_nat e :: u32) + w = 0" by (simp only: u32_two_p32)
  then have "w = - of_nat e" by (simp add: eq_neg_iff_add_eq_0 add.commute)
  then have "sint w = - int e" using sint_early [OF e] by simp
  with e False show ?thesis by simp
qed

text \<open>From any tick on, the clock reads the same value for some ticks and then moves.\<close>

lemma next_advance:
  assumes "k0 \<le> j" "clk (Suc j) \<noteq> clk j"
  shows "\<exists>m. (\<forall>i\<le>m. clk (k0 + i) = clk k0) \<and> clk (Suc (k0 + m)) \<noteq> clk (k0 + m)"
  using assms(1)
proof (induction "j - k0" arbitrary: k0 rule: less_induct)
  case less
  show ?case
  proof (cases "clk (Suc k0) = clk k0")
    case False
    then have "(\<forall>i\<le>0. clk (k0 + i) = clk k0) \<and> clk (Suc (k0 + 0)) \<noteq> clk (k0 + 0)"
      by simp
    then show ?thesis by (rule exI)
  next
    case True
    with assms(2) have "k0 \<noteq> j" by auto
    with less.prems have lt: "Suc k0 \<le> j" "j - Suc k0 < j - k0" by simp_all
    obtain m where m: "\<forall>i\<le>m. clk (Suc k0 + i) = clk (Suc k0)"
      "clk (Suc (Suc k0 + m)) \<noteq> clk (Suc k0 + m)"
      using less.hyps [OF lt(2) lt(1)] by blast
    have "\<forall>i\<le>Suc m. clk (k0 + i) = clk k0"
    proof (intro allI impI)
      fix i assume i: "i \<le> Suc m"
      show "clk (k0 + i) = clk k0"
      proof (cases i)
        case 0
        then show ?thesis by simp
      next
        case (Suc i')
        with i m(1) True show ?thesis by simp
      qed
    qed
    moreover have "clk (Suc (k0 + Suc m)) \<noteq> clk (k0 + Suc m)" using m(2) by simp
    ultimately show ?thesis by blast
  qed
qed

lemma eventually_reached:
  assumes "clock_advances clk"
  shows "\<exists>n. (\<forall>j<n. \<not> 0 \<le> sint (clk (k0 + j) - d)) \<and> 0 \<le> sint (clk (k0 + n) - d)"
proof (induction "2 ^ 32 - unat (clk k0 - d)" arbitrary: k0 rule: less_induct)
  case less
  show ?case
  proof (cases "0 \<le> sint (clk k0 - d)")
    case True
    then have "(\<forall>j<0. \<not> 0 \<le> sint (clk (k0 + j) - d)) \<and> 0 \<le> sint (clk (k0 + 0) - d)"
      by simp
    then show ?thesis by (rule exI)
  next
    case False
    obtain j where "k0 \<le> j" "clk (Suc j) \<noteq> clk j"
      using assms by (auto simp add: clock_advances_def)
    then obtain m where m: "\<forall>i\<le>m. clk (k0 + i) = clk k0"
      "clk (Suc (k0 + m)) \<noteq> clk (k0 + m)"
      using next_advance [of k0 j clk] by blast
    define k1 where "k1 = k0 + m"
    have same: "clk k1 = clk k0" using m(1) by (simp add: k1_def)
    have stall: "\<not> 0 \<le> sint (clk (k0 + i) - d)" if "i \<le> m" for i
      using that m(1) False by simp
    define u where "u = unat (clk k1 - d)"
    define dl where "dl = unat (clk (Suc k1) - clk k1)"
    have big: "2 ^ 31 \<le> u" using False by (simp add: sint_nonneg_iff u_def same)
    have ult: "u < 2 ^ 32" using unsigned_less [of "clk k1 - d"] by (simp add: u_def)
    have "clk (Suc k1) - clk k1 \<noteq> 0" using m(2) by (simp add: k1_def)
    then have "0 < dl" by (simp add: dl_def unat_gt_0)
    moreover have "dl < 2 ^ 31"
      using assms by (simp add: clock_advances_def dl_def)
    ultimately have dl: "0 < dl" "dl < 2 ^ 31" .
    have "clk (Suc k1) - d = (clk k1 - d) + (clk (Suc k1) - clk k1)" by simp
    then have next_u: "unat (clk (Suc k1) - d) = (u + dl) mod 2 ^ 32"
      by (simp only: unat_word_ariths u_def dl_def) simp
    show ?thesis
    proof (cases "u + dl < 2 ^ 32")
      case True
      then have "unat (clk (Suc k1) - d) = u + dl" using next_u by simp
      then have "2 ^ 32 - unat (clk (Suc k1) - d) < 2 ^ 32 - unat (clk k0 - d)"
        using dl True by (simp add: u_def same)
      then obtain n where n: "\<forall>j<n. \<not> 0 \<le> sint (clk (Suc k1 + j) - d)"
        "0 \<le> sint (clk (Suc k1 + n) - d)"
        using less [of "Suc k1"] by blast
      have "\<forall>j<Suc m + n. \<not> 0 \<le> sint (clk (k0 + j) - d)"
      proof (intro allI impI)
        fix j assume j: "j < Suc m + n"
        show "\<not> 0 \<le> sint (clk (k0 + j) - d)"
        proof (cases "j \<le> m")
          case True
          then show ?thesis by (rule stall)
        next
          case False
          then have "j - Suc m < n" "k0 + j = Suc k1 + (j - Suc m)"
            using j by (simp_all add: k1_def)
          with n(1) show ?thesis by simp
        qed
      qed
      moreover have "0 \<le> sint (clk (k0 + (Suc m + n)) - d)"
        using n(2) by (simp add: k1_def add.assoc)
      ultimately show ?thesis by blast
    next
      case over: False
      then have "(u + dl) mod 2 ^ 32 = u + dl - 2 ^ 32"
        using ult dl by (simp add: mod_if)
      then have "unat (clk (Suc k1) - d) < 2 ^ 31"
        using next_u ult dl over by simp
      then have "0 \<le> sint (clk (k0 + Suc m) - d)" by (simp add: sint_nonneg_iff k1_def)
      moreover have "\<forall>j<Suc m. \<not> 0 \<le> sint (clk (k0 + j) - d)"
        using stall by simp
      ultimately show ?thesis by blast
    qed
  qed
qed

lemma run_ticks_noop:
  assumes "\<And>t. t \<in> set ts \<Longrightarrow> serviceStepper t r = (r, [])"
  shows "run_ticks ts r = (r, [])"
  using assms by (induction ts) simp_all

lemma run_ticks_wait:
  assumes "\<forall>j<n. serviceStepper (clk (k0 + j)) r = (r, [])"
  shows "run_ticks (map clk [k0..<k0 + n]) r = (r, [])"
proof (rule run_ticks_noop)
  fix t assume "t \<in> set (map clk [k0..<k0 + n])"
  then obtain i where i: "k0 \<le> i" "i < k0 + n" "t = clk i" by auto
  then have "i - k0 < n" "clk (k0 + (i - k0)) = t" by simp_all
  with assms show "serviceStepper t r = (r, [])" by metis
qed

lemma run_ticks_wait_then:
  assumes "\<forall>j<n. serviceStepper (clk (k0 + j)) r = (r, [])"
  shows "run_ticks (map clk [k0..<k0 + Suc n]) r = serviceStepper (clk (k0 + n)) r"
proof -
  have "map clk [k0..<k0 + Suc n] = map clk [k0..<k0 + n] @ [clk (k0 + n)]" by simp
  then show ?thesis
    using run_ticks_wait [OF assms] by (simp add: run_ticks_append split_def)
qed

lemma wait_release:
  assumes "clock_advances clk" "stepHigh r"
  shows "\<exists>n. run_ticks (map clk [k0..<k0 + Suc n]) r
              = (r\<lparr>stepHigh := False\<rparr>, [digitalWrite STEP_PIN False])"
proof -
  obtain n where n: "\<forall>j<n. \<not> 0 \<le> sint (clk (k0 + j) - stepHighUntilUs r)"
    "0 \<le> sint (clk (k0 + n) - stepHighUntilUs r)"
    using eventually_reached [OF assms(1), of k0 "stepHighUntilUs r"] by blast
  have "\<forall>j<n. serviceStepper (clk (k0 + j)) r = (r, [])"
    using n(1) assms(2) by (simp add: serviceStepper_def)
  then have "run_ticks (map clk [k0..<k0 + Suc n]) r = serviceStepper (clk (k0 + n)) r"
    by (rule run_ticks_wait_then)
  also have "\<dots> = (r\<lparr>stepHigh := False\<rparr>, [digitalWrite STEP_PIN False])"
    using n(2) assms(2) by (simp add: serviceStepper_def)
  finally show ?thesis by (rule exI)
qed

lemma wait_fire:
  assumes "clock_advances clk" "\<not> stepHigh r" "enabled r" "\<not> continuous r"
    "0 < sint (remaining r)"
  shows "\<exists>n r'. run_ticks (map clk [k0..<k0 + Suc n]) r = (r', [digitalWrite STEP_PIN True])
              \<and> remaining r' = remaining r - 1 \<and> enabled r' \<and> \<not> continuous r'"
proof -
  obtain n where n: "\<forall>j<n. \<not> 0 \<le> sint (clk (k0 + j) - nextStepUs r)"
    "0 \<le> sint (clk (k0 + n) - nextStepUs r)"
    using eventually_reached [OF assms(1), of k0 "nextStepUs r"] by blast
  have "\<forall>j<n. serviceStepper (clk (k0 + j)) r = (r, [])"
    using n(1) assms(2) by (simp add: serviceStepper_def Let_def)
  then have "run_ticks (map clk [k0..<k0 + Suc n]) r = serviceStepper (clk (k0 + n)) r"
    by (rule run_ticks_wait_then)
  moreover have "snd (serviceStepper (clk (k0 + n)) r) = [digitalWrite STEP_PIN True]"
    "remaining (fst (serviceStepper (clk (k0 + n)) r)) = remaining r - 1"
    "enabled (fst (serviceStepper (clk (k0 + n)) r))"
    "\<not> continuous (fst (serviceStepper (clk (k0 + n)) r))"
    using n(2) assms(2-5) by (simp_all add: serviceStepper_def Let_def)
  ultimately show ?thesis
    by (metis prod.collapse)
qed

lemma sint_dec:
  assumes "0 < sint (x :: long)"
  shows "sint (x - 1) = sint x - 1"
proof -
  have "x - 1 = word_of_int (sint x - 1)" by simp
  then have "sint (x - 1) = signed_take_bit 31 (sint x - 1)"
    by (simp only: sint_sbintrunc') simp
  also have "\<dots> = sint x - 1"
    by (rule signed_take_bit_int_eq_self) (use assms sint_lt [of x] in simp_all)
  finally show ?thesis .
qed

text \<open>One tick in finite-move mode: the rising edges written and the steps left add up.\<close>

lemma tick_conserves:
  assumes "\<not> continuous r" "0 \<le> sint (remaining r)"
  shows "int (rising_edges (snd (serviceStepper now r))) + sint (remaining (fst (serviceStepper now r)))
           = sint (remaining r)
       \<and> 0 \<le> sint (remaining (fst (serviceStepper now r)))
       \<and> \<not> continuous (fst (serviceStepper now r))"
  using assms sint_dec [of "remaining r"]
  by (auto simp add: serviceStepper_def Let_def rising_edges_def)

lemma run_ticks_conserves:
  assumes "\<not> continuous r" "0 \<le> sint (remaining r)"
  shows "int (rising_edges (snd (run_ticks ts r))) + sint (remaining (fst (run_ticks ts r)))
           = sint (remaining r)
       \<and> 0 \<le> sint (remaining (fst (run_ticks ts r)))
       \<and> \<not> continuous (fst (run_ticks ts r))"
  using assms
proof (induction ts arbitrary: r)
  case Nil
  then show ?case by simp
next
  case (Cons t ts)
  obtain r1 o1 where s: "serviceStepper t r = (r1, o1)" by (cases "serviceStepper t r")
  have 1: "int (rising_edges o1) + sint (remaining r1) = sint (remaining r)"
    "0 \<le> sint (remaining r1)" "\<not> continuous r1"
    using tick_conserves [OF Cons.prems, of t] s by simp_all
  have 2: "int (rising_edges (snd (run_ticks ts r1))) + sint (remaining (fst (run_ticks ts r1)))
           = sint (remaining r1)
       \<and> 0 \<le> sint (remaining (fst (run_ticks ts r1)))
       \<and> \<not> continuous (fst (run_ticks ts r1))"
    using Cons.IH [OF 1(3) 1(2)] .
  show ?case using s 1 2 by (simp add: split_def Let_def)
qed


lemma run_ticks_done:
  assumes "\<not> continuous r" "remaining r = 0"
  shows "rising_edges (snd (run_ticks ts r)) = 0 \<and> remaining (fst (run_ticks ts r)) = 0
       \<and> \<not> continuous (fst (run_ticks ts r))"
  using assms
proof (induction ts arbitrary: r)
  case Nil
  then show ?case by simp
next
  case (Cons t ts)
  have idle: "\<not> (enabled r \<and> (continuous r \<or> 0 < sint (remaining r)))"
    using Cons.prems by simp
  obtain r1 o1 where s: "serviceStepper t r = (r1, o1)" by (cases "serviceStepper t r")
  have 1: "rising_edges o1 = 0" "\<not> continuous r1" "remaining r1 = 0"
    using serviceStepper_idle [OF idle, of t] s Cons.prems by simp_all
  have 2: "rising_edges (snd (run_ticks ts r1)) = 0 \<and> remaining (fst (run_ticks ts r1)) = 0
       \<and> \<not> continuous (fst (run_ticks ts r1))"
    using Cons.IH [OF 1(2) 1(3)] .
  show ?case using s 1 2 by (simp add: split_def Let_def)
qed

lemma word_of_sint: "word_of_int (sint x) = x"
  by (simp only: of_int_sint signed_scast_eq scast_id)

lemma run_ticks_join:
  assumes "k0 \<le> k1" "k1 \<le> k2"
  shows "run_ticks (map clk [k0..<k2]) r =
           (fst (run_ticks (map clk [k1..<k2]) (fst (run_ticks (map clk [k0..<k1]) r))),
            snd (run_ticks (map clk [k0..<k1]) r)
              @ snd (run_ticks (map clk [k1..<k2]) (fst (run_ticks (map clk [k0..<k1]) r))))"
proof -
  have "[k0..<k1 + (k2 - k1)] = [k0..<k1] @ [k1..<k1 + (k2 - k1)]"
    by (rule upt_add_eq_append [OF assms(1)])
  then have "[k0..<k2] = [k0..<k1] @ [k1..<k2]"
    using assms(2) by simp
  then show ?thesis by (simp add: run_ticks_append split_def Let_def)
qed

text \<open>With the clock advancing, a finite move started at tick \<open>k0\<close> is finished by some
  tick, with one rising edge for each step that was left.\<close>

lemma finish_move:
  assumes "clock_advances clk" "enabled r" "\<not> continuous r" "sint (remaining r) = int m"
  shows "\<exists>n. rising_edges (snd (run_ticks (map clk [k0..<k0 + n]) r)) = m
           \<and> remaining (fst (run_ticks (map clk [k0..<k0 + n]) r)) = 0
           \<and> \<not> continuous (fst (run_ticks (map clk [k0..<k0 + n]) r))"
  using assms(2-4)
proof (induction m arbitrary: r k0)
  case 0
  have "remaining r = word_of_int (sint (remaining r))" by (simp only: word_of_sint)
  then have "remaining r = 0" using "0.prems"(3) by simp
  then have "rising_edges (snd (run_ticks (map clk [k0..<k0 + 0]) r)) = 0
           \<and> remaining (fst (run_ticks (map clk [k0..<k0 + 0]) r)) = 0
           \<and> \<not> continuous (fst (run_ticks (map clk [k0..<k0 + 0]) r))"
    using "0.prems" by simp
  then show ?case by (rule exI)
next
  case (Suc m)
  have pos: "0 < sint (remaining r)" using Suc.prems by simp
  \<comment> \<open>first let a pulse in flight end\<close>
  obtain n1 ra o1 where ra: "run_ticks (map clk [k0..<k0 + n1]) r = (ra, o1)"
      "rising_edges o1 = 0" "\<not> stepHigh ra" "enabled ra" "\<not> continuous ra"
      "remaining ra = remaining r"
  proof (cases "stepHigh r")
    case True
    obtain n where w: "run_ticks (map clk [k0..<k0 + Suc n]) r
              = (r\<lparr>stepHigh := False\<rparr>, [digitalWrite STEP_PIN False])"
      using wait_release [OF assms(1) True, of k0] by blast
    show ?thesis
      by (rule that [of "Suc n" "r\<lparr>stepHigh := False\<rparr>" "[digitalWrite STEP_PIN False]"])
        (use w Suc.prems in \<open>simp_all add: rising_edges_def\<close>)
  next
    case False
    show ?thesis
      by (rule that [of 0 r "[]"]) (use False Suc.prems in simp_all)
  qed
  \<comment> \<open>then the next step fires\<close>
  have posa: "0 < sint (remaining ra)" using pos ra(6) by simp
  obtain n2 rb where rb: "run_ticks (map clk [k0 + n1..<k0 + n1 + Suc n2]) ra
      = (rb, [digitalWrite STEP_PIN True])"
    "remaining rb = remaining ra - 1" "enabled rb" "\<not> continuous rb"
    using wait_fire [OF assms(1) ra(3) ra(4) ra(5) posa, of "k0 + n1"] by blast
  define K where "K = k0 + n1 + Suc n2"
  have "sint (remaining rb) = int m"
    using rb(2) sint_dec [OF posa] ra(6) Suc.prems by simp
  then obtain n3 where n3:
    "rising_edges (snd (run_ticks (map clk [K..<K + n3]) rb)) = m"
    "remaining (fst (run_ticks (map clk [K..<K + n3]) rb)) = 0"
    "\<not> continuous (fst (run_ticks (map clk [K..<K + n3]) rb))"
    using Suc.IH [OF rb(3) rb(4), of K] by blast
  have l1: "k0 \<le> k0 + n1" and l2: "k0 + n1 \<le> K" and l3: "k0 \<le> K" and l4: "K \<le> K + n3"
    by (simp_all add: K_def)
  have first: "run_ticks (map clk [k0..<K]) r = (rb, o1 @ [digitalWrite STEP_PIN True])"
    using run_ticks_join [of k0 "k0 + n1" K clk r, OF l1 l2] ra(1) rb(1)
    by (simp add: K_def)
  have all: "run_ticks (map clk [k0..<K + n3]) r
      = (fst (run_ticks (map clk [K..<K + n3]) rb),
         (o1 @ [digitalWrite STEP_PIN True]) @ snd (run_ticks (map clk [K..<K + n3]) rb))"
    using run_ticks_join [of k0 K "K + n3" clk r, OF l3 l4]
    by (simp only: first fst_conv snd_conv)
  have one: "rising_edges (digitalWrite STEP_PIN True # os) = Suc (rising_edges os)" for os
    by (simp add: rising_edges_def)
  have fin: "rising_edges (snd (run_ticks (map clk [k0..<K + n3]) r)) = Suc m
      \<and> remaining (fst (run_ticks (map clk [k0..<K + n3]) r)) = 0
      \<and> \<not> continuous (fst (run_ticks (map clk [k0..<K + n3]) r))"
    unfolding all using n3 ra(2) one by simp
  have idx: "K + n3 = k0 + (n1 + Suc n2 + n3)" by (simp add: K_def)
  show ?case using fin unfolding idx by (rule exI)
qed

lemma run_ticks_alternating:
  "alternating (stepHigh r) (step_writes (snd (run_ticks ts r)))
   \<and> stepHigh (fst (run_ticks ts r)) = last (stepHigh r # step_writes (snd (run_ticks ts r)))"
proof (induction ts arbitrary: r)
  case Nil
  show ?case by simp
next
  case (Cons t ts)
  obtain r1 o1 where s: "serviceStepper t r = (r1, o1)" by (cases "serviceStepper t r")
  have w: "step_writes o1 = (if stepHigh r1 = stepHigh r then [] else [stepHigh r1])"
    using serviceStepper_writes [of t r] s by simp
  obtain r2 o2 where rt: "run_ticks ts r1 = (r2, o2)" by (cases "run_ticks ts r1")
  have ih: "alternating (stepHigh r1) (step_writes o2)"
           "stepHigh r2 = last (stepHigh r1 # step_writes o2)"
    using Cons.IH [of r1] rt by simp_all
  show ?case
    using s rt w ih by (auto simp add: alternating_append)
qed

lemma alternating_rises:
  "alternating lvl ws \<Longrightarrow> pin_rises lvl ws = length (filter (\<lambda>v. v) ws)"
  by (induction ws arbitrary: lvl) auto

text \<open>Once a finite move is finished, the last pulse is released and nothing more is
  written.\<close>

lemma settle:
  assumes "clock_advances clk" "\<not> continuous r" "remaining r = 0"
  shows "\<exists>n. \<forall>n'\<ge>n. rising_edges (snd (run_ticks (map clk [k0..<k0 + n']) r)) = 0
           \<and> remaining (fst (run_ticks (map clk [k0..<k0 + n']) r)) = 0
           \<and> \<not> stepHigh (fst (run_ticks (map clk [k0..<k0 + n']) r))"
proof -
  have idle: "serviceStepper t (r\<lparr>stepHigh := False\<rparr>) = (r\<lparr>stepHigh := False\<rparr>, [])" for t
    using assms(2,3) by (simp add: serviceStepper_def Let_def)
  have rest: "run_ticks ts (r\<lparr>stepHigh := False\<rparr>) = (r\<lparr>stepHigh := False\<rparr>, [])" for ts
    by (rule run_ticks_noop) (rule idle)
  show ?thesis
  proof (cases "stepHigh r")
    case False
    then have "r\<lparr>stepHigh := False\<rparr> = r" by simp
    then have "run_ticks ts r = (r, [])" for ts using rest [of ts] by simp
    then have "\<forall>n'\<ge>0. rising_edges (snd (run_ticks (map clk [k0..<k0 + n']) r)) = 0
           \<and> remaining (fst (run_ticks (map clk [k0..<k0 + n']) r)) = 0
           \<and> \<not> stepHigh (fst (run_ticks (map clk [k0..<k0 + n']) r))"
      using False assms(3) by simp
    then show ?thesis by (rule exI)
  next
    case True
    obtain n where n: "run_ticks (map clk [k0..<k0 + Suc n]) r
              = (r\<lparr>stepHigh := False\<rparr>, [digitalWrite STEP_PIN False])"
      using wait_release [OF assms(1) True, of k0] by blast
    have "\<forall>n'\<ge>Suc n. rising_edges (snd (run_ticks (map clk [k0..<k0 + n']) r)) = 0
           \<and> remaining (fst (run_ticks (map clk [k0..<k0 + n']) r)) = 0
           \<and> \<not> stepHigh (fst (run_ticks (map clk [k0..<k0 + n']) r))"
    proof (intro allI impI)
      fix n' assume n': "Suc n \<le> n'"
      have l1: "k0 \<le> k0 + Suc n" and l2: "k0 + Suc n \<le> k0 + n'" using n' by simp_all
      have "run_ticks (map clk [k0..<k0 + n']) r
              = (r\<lparr>stepHigh := False\<rparr>, [digitalWrite STEP_PIN False])"
        using run_ticks_join [of k0 "k0 + Suc n" "k0 + n'" clk r, OF l1 l2]
        by (simp only: n fst_conv snd_conv rest append_Nil2)
      then show "rising_edges (snd (run_ticks (map clk [k0..<k0 + n']) r)) = 0
           \<and> remaining (fst (run_ticks (map clk [k0..<k0 + n']) r)) = 0
           \<and> \<not> stepHigh (fst (run_ticks (map clk [k0..<k0 + n']) r))"
        using assms(3) by (simp add: rising_edges_def)
    qed
    then show ?thesis by (rule exI)
  qed
qed

text \<open>
  Claim C2.  Take a \<open>move\<close> line whose steps word parses to \<open>N \<ge> 0\<close>, with any speed word
  or none, handled in any state, and then scheduler ticks alone (no command, so \<open>enabled\<close>
  stays set).  \<open>remaining\<close> is set to \<open>N\<close>.  After any ticks, at whatever clock samples:
  the rising edges written so far plus \<open>remaining\<close> equal \<open>N\<close>; \<open>remaining\<close> is not
  negative; the writes to the step pin alternate, beginning with the opposite of
  \<open>stepHigh\<close>, so that every high write is a low-to-high transition of the pin
  (\<open>pin_rises\<close> counts these).  With free-running ticks, the clock moving on from tick to
  tick by less than half its range and never standing still for good, from some tick on
  exactly \<open>N\<close> rising edges have been written, \<open>remaining\<close> is 0 and the last pulse has been
  released.  A single tick leaves \<open>remaining\<close> alone or lowers it by exactly 1, the latter
  only when it writes a rising edge with \<open>continuous\<close> clear; and a tick that writes a
  rising edge with \<open>continuous\<close> clear lowers it by 1.
\<close>

theorem finite_move_exact:
  fixes r :: "'w::len word Runner" and clk :: "nat \<Rightarrow> u32"
  shows "(strtok_all s = ''move'' # a # bs \<and> 0 \<le> sint (atol a) \<longrightarrow>
            remaining (fst (handleLine s r)) = atol a
          \<and> (\<forall>ts. int (rising_edges (snd (run_ticks ts (fst (handleLine s r)))))
                    + sint (remaining (fst (run_ticks ts (fst (handleLine s r))))) = sint (atol a)
                  \<and> 0 \<le> sint (remaining (fst (run_ticks ts (fst (handleLine s r)))))
                  \<and> alternating (stepHigh r)
                      (step_writes (snd (run_ticks ts (fst (handleLine s r)))))
                  \<and> pin_rises (stepHigh r)
                      (step_writes (snd (run_ticks ts (fst (handleLine s r)))))
                    = rising_edges (snd (run_ticks ts (fst (handleLine s r)))))
          \<and> (clock_advances clk \<longrightarrow>
               (\<exists>K. \<forall>n\<ge>K.
                  rising_edges (snd (run_ticks (map clk [0..<n]) (fst (handleLine s r))))
                    = nat (sint (atol a))
                  \<and> remaining (fst (run_ticks (map clk [0..<n]) (fst (handleLine s r)))) = 0
                  \<and> \<not> stepHigh (fst (run_ticks (map clk [0..<n]) (fst (handleLine s r)))))))
       \<and> (remaining (fst (serviceStepper now r)) = remaining r
            \<or> remaining (fst (serviceStepper now r)) = remaining r - 1
              \<and> 0 < sint (remaining r) \<and> \<not> continuous r
              \<and> snd (serviceStepper now r) = [digitalWrite STEP_PIN True])
       \<and> (\<not> continuous r \<and> snd (serviceStepper now r) = [digitalWrite STEP_PIN True] \<longrightarrow>
            remaining (fst (serviceStepper now r)) = remaining r - 1)"
proof (intro conjI impI)
  assume h: "strtok_all s = ''move'' # a # bs \<and> 0 \<le> sint (atol a)"
  define r0 where "r0 = fst (handleLine s r)"
  have r0: "remaining r0 = atol a" "\<not> continuous r0" "enabled r0"
    using handleLine_move [of s a bs r] h by (simp_all add: r0_def Let_def)
  have sh: "stepHigh r0 = stepHigh r"
    using handleLine_pulse_frame [of s r] by (simp add: r0_def)
  show "remaining (fst (handleLine s r)) = atol a"
    using r0(1) by (simp add: r0_def)
  have nn: "0 \<le> sint (remaining r0)" using h r0(1) by simp
  have alt: "alternating (stepHigh r) (step_writes (snd (run_ticks ts r0)))" for ts
    using run_ticks_alternating [of r0 ts] sh by simp
  have rises: "pin_rises (stepHigh r) (step_writes (snd (run_ticks ts r0)))
                 = rising_edges (snd (run_ticks ts r0))" for ts
    using alternating_rises [OF alt [of ts]] by (simp add: rising_edges_def)
  have "\<forall>ts. int (rising_edges (snd (run_ticks ts r0))) + sint (remaining (fst (run_ticks ts r0)))
              = sint (atol a)
            \<and> 0 \<le> sint (remaining (fst (run_ticks ts r0)))
            \<and> alternating (stepHigh r) (step_writes (snd (run_ticks ts r0)))
            \<and> pin_rises (stepHigh r) (step_writes (snd (run_ticks ts r0)))
                 = rising_edges (snd (run_ticks ts r0))"
    using run_ticks_conserves [OF r0(2) nn] r0(1) alt rises by simp
  then show "\<forall>ts. int (rising_edges (snd (run_ticks ts (fst (handleLine s r)))))
                    + sint (remaining (fst (run_ticks ts (fst (handleLine s r))))) = sint (atol a)
                  \<and> 0 \<le> sint (remaining (fst (run_ticks ts (fst (handleLine s r)))))
                  \<and> alternating (stepHigh r)
                      (step_writes (snd (run_ticks ts (fst (handleLine s r)))))
                  \<and> pin_rises (stepHigh r)
                      (step_writes (snd (run_ticks ts (fst (handleLine s r)))))
                    = rising_edges (snd (run_ticks ts (fst (handleLine s r))))"
    unfolding r0_def .
  assume c: "clock_advances clk"
  have m: "sint (remaining r0) = int (nat (sint (atol a)))" using h r0(1) by simp
  obtain K where K: "rising_edges (snd (run_ticks (map clk [0..<0 + K]) r0)) = nat (sint (atol a))"
    "remaining (fst (run_ticks (map clk [0..<0 + K]) r0)) = 0"
    "\<not> continuous (fst (run_ticks (map clk [0..<0 + K]) r0))"
    using finish_move [OF c r0(3) r0(2) m, of 0] by blast
  define rK where "rK = fst (run_ticks (map clk [0..<K]) r0)"
  have rK: "\<not> continuous rK" "remaining rK = 0" using K by (simp_all add: rK_def)
  obtain L where L: "\<forall>n'\<ge>L. rising_edges (snd (run_ticks (map clk [K..<K + n']) rK)) = 0
           \<and> remaining (fst (run_ticks (map clk [K..<K + n']) rK)) = 0
           \<and> \<not> stepHigh (fst (run_ticks (map clk [K..<K + n']) rK))"
    using settle [OF c rK, of K] by blast
  have "\<forall>n\<ge>K + L. rising_edges (snd (run_ticks (map clk [0..<n]) r0)) = nat (sint (atol a))
                \<and> remaining (fst (run_ticks (map clk [0..<n]) r0)) = 0
                \<and> \<not> stepHigh (fst (run_ticks (map clk [0..<n]) r0))"
  proof (intro allI impI)
    fix n assume n: "K + L \<le> n"
    then have idx: "n = K + (n - K)" "L \<le> n - K" by simp_all
    have d: "rising_edges (snd (run_ticks (map clk [K..<n]) rK)) = 0
           \<and> remaining (fst (run_ticks (map clk [K..<n]) rK)) = 0
           \<and> \<not> stepHigh (fst (run_ticks (map clk [K..<n]) rK))"
      using L idx(2) by (subst (1 2 3) idx(1)) blast
    have j: "run_ticks (map clk [0..<n]) r0 =
           (fst (run_ticks (map clk [K..<n]) rK),
            snd (run_ticks (map clk [0..<K]) r0) @ snd (run_ticks (map clk [K..<n]) rK))"
      unfolding rK_def by (rule run_ticks_join) (use n in simp_all)
    show "rising_edges (snd (run_ticks (map clk [0..<n]) r0)) = nat (sint (atol a))
                \<and> remaining (fst (run_ticks (map clk [0..<n]) r0)) = 0
                \<and> \<not> stepHigh (fst (run_ticks (map clk [0..<n]) r0))"
      unfolding j using d K by simp
  qed
  then show "\<exists>K. \<forall>n\<ge>K.
                  rising_edges (snd (run_ticks (map clk [0..<n]) (fst (handleLine s r))))
                    = nat (sint (atol a))
                  \<and> remaining (fst (run_ticks (map clk [0..<n]) (fst (handleLine s r)))) = 0
                  \<and> \<not> stepHigh (fst (run_ticks (map clk [0..<n]) (fst (handleLine s r))))"
    unfolding r0_def by (rule exI)
next
  show "remaining (fst (serviceStepper now r)) = remaining r
            \<or> remaining (fst (serviceStepper now r)) = remaining r - 1
              \<and> 0 < sint (remaining r) \<and> \<not> continuous r
              \<and> snd (serviceStepper now r) = [digitalWrite STEP_PIN True]"
    by (simp add: serviceStepper_def Let_def)
next
  assume "\<not> continuous r \<and> snd (serviceStepper now r) = [digitalWrite STEP_PIN True]"
  then show "remaining (fst (serviceStepper now r)) = remaining r - 1"
    by (auto simp add: serviceStepper_def Let_def split: if_splits)
qed

text \<open>A clock of 1000 microseconds per tick that every tick reads twice.\<close>

lemma stuttering_clock: "clock_advances (\<lambda>k. 1000 * of_nat (k div 2))"
proof -
  have step: "unat (1000 * of_nat (Suc k div 2) - 1000 * of_nat (k div 2) :: u32) < 2 ^ 31" for k
  proof (cases "even k")
    case True
    then have "Suc k div 2 = k div 2" by simp
    then show ?thesis by simp
  next
    case False
    then have "Suc k div 2 = Suc (k div 2)" by simp
    then have "(1000 * of_nat (Suc k div 2) - 1000 * of_nat (k div 2) :: u32) = 1000"
      by (simp add: algebra_simps)
    then show ?thesis by simp
  qed
  have move: "\<exists>j\<ge>k. (1000 * of_nat (Suc j div 2) :: u32) \<noteq> 1000 * of_nat (j div 2)" for k
  proof -
    have "(1000 * of_nat (Suc (2 * k + 1) div 2) - 1000 * of_nat ((2 * k + 1) div 2) :: u32) = 1000"
      by (simp add: algebra_simps)
    then have "(1000 * of_nat (Suc (2 * k + 1) div 2) :: u32) \<noteq> 1000 * of_nat ((2 * k + 1) div 2)"
      by auto
    moreover have "k \<le> 2 * k + 1" by simp
    ultimately show ?thesis by blast
  qed
  show ?thesis
    unfolding clock_advances_def using step move by blast
qed

theorem finite_move_exact_witness:
  "strtok_all ''move 3 500'' = ''move'' # ''3'' # [''500''] \<and> 0 \<le> sint (atol ''3'')
   \<and> clock_advances (\<lambda>k. 1000 * of_nat (k div 2))
   \<and> remaining (fst (handleLine ''move 3 500'' (Runner_init :: 16 word Runner))) = atol ''3''
   \<and> alternating (stepHigh (Runner_init :: 16 word Runner))
       (step_writes (snd (run_ticks [0, 0, 1000, 1000, 2000, 2000, 3000, 3000, 4000, 4000, 5000, 5000]
                           (fst (handleLine ''move 3 500'' (Runner_init :: 16 word Runner))))))
   \<and> pin_rises (stepHigh (Runner_init :: 16 word Runner))
       (step_writes (snd (run_ticks [0, 0, 1000, 1000, 2000, 2000, 3000, 3000, 4000, 4000, 5000, 5000]
                           (fst (handleLine ''move 3 500'' (Runner_init :: 16 word Runner))))))
     = rising_edges (snd (run_ticks [0, 0, 1000, 1000, 2000, 2000, 3000, 3000, 4000, 4000, 5000, 5000]
                           (fst (handleLine ''move 3 500'' (Runner_init :: 16 word Runner)))))
   \<and> (\<exists>K. \<forall>n\<ge>K.
         rising_edges (snd (run_ticks (map (\<lambda>k. 1000 * of_nat (k div 2)) [0..<n])
                         (fst (handleLine ''move 3 500'' (Runner_init :: 16 word Runner)))))
           = nat (sint (atol ''3''))
         \<and> remaining (fst (run_ticks (map (\<lambda>k. 1000 * of_nat (k div 2)) [0..<n])
                         (fst (handleLine ''move 3 500'' (Runner_init :: 16 word Runner))))) = 0
         \<and> \<not> stepHigh (fst (run_ticks (map (\<lambda>k. 1000 * of_nat (k div 2)) [0..<n])
                         (fst (handleLine ''move 3 500'' (Runner_init :: 16 word Runner))))))
   \<and> nat (sint (atol ''3'')) = 3
   \<and> step_writes (snd (run_ticks [0, 0, 1000, 1000, 2000, 2000, 3000, 3000, 4000, 4000, 5000, 5000]
                         (fst (handleLine ''move 3 500'' (Runner_init :: 16 word Runner)))))
       = [True, False, True, False, True, False]
   \<and> \<not> continuous (fst (serviceStepper 0 (fst (handleLine ''move 3 500'' (Runner_init :: 16 word Runner)))))
   \<and> snd (serviceStepper 0 (fst (handleLine ''move 3 500'' (Runner_init :: 16 word Runner))))
       = [digitalWrite STEP_PIN True]
   \<and> remaining (fst (serviceStepper 0 (fst (handleLine ''move 3 500'' (Runner_init :: 16 word Runner))))) = 2"
proof -
  let ?R = "Runner_init :: 16 word Runner"
  let ?r0 = "fst (handleLine ''move 3 500'' ?R)"
  let ?ts = "[0, 0, 1000, 1000, 2000, 2000, 3000, 3000, 4000, 4000, 5000, 5000] :: u32 list"
  have t: "strtok_all ''move 3 500'' = ''move'' # ''3'' # [''500'']"
    by (simp add: strtok_all.simps strtok_def is_delim_def)
  have v: "atol ''3'' = 3"
    by (simp add: atol_def strtol10_def isspace_def isdigit_def)
  have p: "0 \<le> sint (atol ''3'')" "nat (sint (atol ''3'')) = 3" by (simp_all add: v)
  note th = finite_move_exact [of "''move 3 500''" "''3''" "[''500'']" ?R "\<lambda>k. 1000 * of_nat (k div 2)"]
  note a = th [THEN conjunct1, THEN mp, OF conjI [OF t p(1)]]
  note b = a [THEN conjunct2, THEN conjunct1, THEN spec, of ?ts]
  have e: "step_writes (snd (run_ticks ?ts ?r0)) = [True, False, True, False, True, False]"
    by code_simp
  have f: "\<not> continuous ?r0" "snd (serviceStepper 0 ?r0) = [digitalWrite STEP_PIN True]"
    "remaining ?r0 - 1 = 2"
    by code_simp+
  have g: "remaining (fst (serviceStepper 0 ?r0)) = 2"
    using finite_move_exact [of _ _ _ ?r0 _ 0, THEN conjunct2, THEN conjunct2, THEN mp, OF conjI [OF f(1) f(2)]]
    by (simp only: f(3))
  have f1: "\<not> continuous (fst (serviceStepper 0 ?r0))" by code_simp
  show ?thesis
    using t p stuttering_clock a [THEN conjunct1]
      b [THEN conjunct2, THEN conjunct2, THEN conjunct1]
      b [THEN conjunct2, THEN conjunct2, THEN conjunct2]
      a [THEN conjunct2, THEN conjunct2, THEN mp, OF stuttering_clock] e f1 f(2) g
    by (intro conjI)
qed

section \<open>The report of a finished move\<close>

text \<open>
  Claim C4 fails on the code.  \<open>loop\<close> compares \<open>remaining\<close> with \<open>lastRemaining\<close>, its
  value at the end of the previous iteration, and \<open>lastRemaining\<close> starts at -1.  So the
  first iteration after \<open>setup()\<close>, with no serial input and at any clock value, prints
  "move done" although no move was issued and \<open>remaining\<close> never left 0.  And a move is
  missed: \<open>move 1\<close>, read when the step deadline is already reached, is stepped in the same
  iteration, so \<open>remaining\<close> is 0 at both samples; the step is made and "move done" is
  never printed.
\<close>

theorem move_done_without_move:
  "snd (loop [] now (fst (setup_sketch :: 'w::len word sketch \<times> effect list)))
     = [Serial_println (Str ''move done'')]
   \<and> remaining (run (fst (setup_sketch :: 'w word sketch \<times> effect list))) = 0
   \<and> remaining (run (fst (loop [] now (fst (setup_sketch :: 'w word sketch \<times> effect list))))) = 0
   \<and> lastRemaining (fst (setup_sketch :: 'w word sketch \<times> effect list)) = - 1
   \<and> rising_edges (snd (run_loop [(''move 1'' @ [CHR 0x0A], 200), ([], 300), ([], 2300), ([], 5000)]
         (fst (loop [] 100 (fst (setup_sketch :: 16 word sketch \<times> effect list)))))) = 1
   \<and> remaining (run (fst (run_loop [(''move 1'' @ [CHR 0x0A], 200), ([], 300), ([], 2300), ([], 5000)]
         (fst (loop [] 100 (fst (setup_sketch :: 16 word sketch \<times> effect list))))))) = 0
   \<and> Serial_println (Str ''move done'')
       \<notin> set (snd (run_loop [(''move 1'' @ [CHR 0x0A], 200), ([], 300), ([], 2300), ([], 5000)]
             (fst (loop [] 100 (fst (setup_sketch :: 16 word sketch \<times> effect list))))))"
proof -
  have boot: "snd (loop [] now (fst (setup_sketch :: 'w word sketch \<times> effect list)))
     = [Serial_println (Str ''move done'')]
   \<and> remaining (run (fst (setup_sketch :: 'w word sketch \<times> effect list))) = 0
   \<and> remaining (run (fst (loop [] now (fst (setup_sketch :: 'w word sketch \<times> effect list))))) = 0
   \<and> lastRemaining (fst (setup_sketch :: 'w word sketch \<times> effect list)) = - 1"
    by (simp add: loop_def setup_sketch_def setDir_def setEnable_def Runner_init_def
          serviceStepper_def Let_def)
  have one: "rising_edges (snd (run_loop [(''move 1'' @ [CHR 0x0A], 200), ([], 300), ([], 2300), ([], 5000)]
         (fst (loop [] 100 (fst (setup_sketch :: 16 word sketch \<times> effect list)))))) = 1"
    by code_simp
  have rem: "remaining (run (fst (run_loop [(''move 1'' @ [CHR 0x0A], 200), ([], 300), ([], 2300), ([], 5000)]
         (fst (loop [] 100 (fst (setup_sketch :: 16 word sketch \<times> effect list))))))) = 0"
    by code_simp
  have none: "Serial_println (Str ''move done'')
       \<notin> set (snd (run_loop [(''move 1'' @ [CHR 0x0A], 200), ([], 300), ([], 2300), ([], 5000)]
             (fst (loop [] 100 (fst (setup_sketch :: 16 word sketch \<times> effect list))))))"
    by code_simp
  show ?thesis using boot one rem none by (intro conjI) simp_all
qed

end
